theory Spec2Isabelle
  imports Main "HOL-Library.Word" "HOL-Library.Signed_Division" "HOL-Library.Multiset"
begin

unbundle bit_operations_syntax

section \<open>The channel-log writer of db/changes\_writer.go\<close>

text \<open>
  The development embeds \<^verbatim>\<open>changes_writer.go\<close>: the fan-out of one change to the
  channel logs (\<^verbatim>\<open>addToChangeLogs\<close>), the read path (\<^verbatim>\<open>getChangeLog\<close>), the drain of
  a writer's mailbox (\<^verbatim>\<open>readChange_\<close>, \<^verbatim>\<open>readChanges_\<close>), the sort of a batch
  (\<^verbatim>\<open>massageChanges\<close>, with the \<^verbatim>\<open>sort.Sort\<close> of the Go library that it
  calls) and the update callback of \<^verbatim>\<open>addToChangeLog_\<close>.

  Conventions.
  \<^item> A \<^verbatim>\<open>[]byte\<close> is a list of 8-bit words. A nil slice and an empty slice are
    identified, except where the code tests \<^verbatim>\<open>raw == nil\<close>: there the slice is
    a \<open>bytes option\<close> and \<open>None\<close> is nil.
  \<^item> A nullable pointer is an \<open>option\<close>; dereferencing \<open>None\<close> is a panic.
  \<^item> A panic is the left injection of a sum; a returned value is the right one.
  \<^item> Go's \<^verbatim>\<open>int\<close> is modelled by \<open>int\<close>: \<^verbatim>\<open>MaxChangeLogLength - len(entries)\<close>
    cannot overflow for a non-negative \<^verbatim>\<open>MaxChangeLogLength\<close>, the counter
    \<^verbatim>\<open>fullUpdateAttempts\<close> is written and never read, and the quotient \<^verbatim>\<open>/\<close> is
    the truncating \<open>sdiv\<close>.
\<close>

subsection \<open>Data\<close>

type_synonym bytes = "8 word list"

datatype panic = NilPointerDereference | SliceBoundsOutOfRange | IndexOutOfRange

text \<open>
  Modelled from the spec: \<^verbatim>\<open>channels.LogEntry\<close> is declared in the package
  \<^verbatim>\<open>channels\<close>; the fields are those the spec names (an unsigned 64-bit
  \<^verbatim>\<open>Sequence\<close>, \<^verbatim>\<open>DocID\<close>, \<^verbatim>\<open>RevID\<close> and a \<^verbatim>\<open>Flags\<close> bitmask).
\<close>

record LogEntry =
  Sequence :: "64 word"
  DocID :: string
  RevID :: string
  Flags :: "8 word"

text \<open>
  Modelled from the spec: \<^verbatim>\<open>ChannelRemoval\<close>, the value type of \<^verbatim>\<open>ChannelMap\<close>,
  is declared elsewhere in the package \<^verbatim>\<open>db\<close>; the spec gives it as
  \<^verbatim>\<open>Removal{Seq}\<close>.
\<close>

record ChannelRemoval =
  Seq :: "64 word"

text \<open>
  The package \<^verbatim>\<open>channels\<close> is a collaborator: the decoded log type \<open>'log\<close> and
  the operations the writer calls on it are parameters of the model, collected
  in one record. \<open>ChangeLog_empty\<close> is the zero value \<^verbatim>\<open>channels.ChangeLog{}\<close>;
  \<open>ChangeLog_Encode\<close> and \<open>LogEntry_Encode\<close> give the bytes the Go methods
  write to their writer; \<open>TruncateEncodedChangeLog\<close> gives the returned count
  and the bytes written. \<open>DecodeChangeLog\<close> returns a pointer that may be nil,
  or panics: it has no error result.
\<close>

record 'log channels_pkg =
  Removed :: "8 word"
  ChangeLog_empty :: "'log"
  ChangeLog_Add :: "'log \<Rightarrow> LogEntry \<Rightarrow> 'log"
  ChangeLog_Encode :: "'log \<Rightarrow> bytes"
  ChangeLog_FilterAfter :: "'log \<Rightarrow> 64 word \<Rightarrow> 'log"
  LogEntry_Encode :: "LogEntry \<Rightarrow> string \<Rightarrow> bytes"
  TruncateEncodedChangeLog :: "bytes \<Rightarrow> int \<Rightarrow> int \<Rightarrow> int \<times> bytes"
  DecodeChangeLog :: "bytes \<Rightarrow> panic + 'log option"

text \<open>The package-level variables the writer reads.\<close>

record config =
  MaxChangeLogLength :: int
  AlwaysCompactChangeLog :: bool
  EnableStarChannelLog :: bool

record 'log changeEntry =
  logEntry :: "LogEntry option"
  parentRevID :: string
  replacementLog :: "'log option"

datatype WriteOptions = Raw | AddOnly | Persist | Indexable | Append

definition kChannelLogWriterQueueLength :: nat where
  "kChannelLogWriterQueueLength = 1000"

subsection \<open>Subroutines\<close>

definition kChannelLogDocType :: string where
  "kChannelLogDocType = ''log2''"

definition kChannelLogKeyPrefix :: string where
  "kChannelLogKeyPrefix = ''_sync:'' @ kChannelLogDocType @ '':''"

definition channelLogDocID :: "string \<Rightarrow> string" where
  "channelLogDocID channelName = kChannelLogKeyPrefix @ channelName"

definition decodeChannelLog ::
  "'log channels_pkg \<Rightarrow> bytes option \<Rightarrow> panic + ('log option \<times> 'err option)" where
  "decodeChannelLog ch raw =
     (case raw of
        None \<Rightarrow> Inr (None, None)
      | Some b \<Rightarrow>
          (case DecodeChangeLog ch b of
             Inl p \<Rightarrow> Inl p
           | Inr l \<Rightarrow> Inr (l, None)))"

definition encodeChannelLog :: "'log channels_pkg \<Rightarrow> 'log option \<Rightarrow> bytes option" where
  "encodeChannelLog ch log =
     (case log of None \<Rightarrow> None | Some l \<Rightarrow> Some (ChangeLog_Encode ch l))"

text \<open>The contents of a slice that may be nil.\<close>

fun bytes_of :: "bytes option \<Rightarrow> bytes" where
  "bytes_of None = []"
| "bytes_of (Some b) = b"

subsection \<open>The update callback of \<^verbatim>\<open>addToChangeLog_\<close>\<close>

text \<open>
  The closure captures \<^verbatim>\<open>entries\<close>, \<^verbatim>\<open>fullUpdate\<close>, \<^verbatim>\<open>removedCount\<close> and
  \<^verbatim>\<open>fullUpdateAttempts\<close> by reference and assigns to them: they are a record that
  the callback takes and returns. The value \<open>r\<close> is what \<^verbatim>\<open>rand.Intn(100)\<close>
  yields in this invocation, were it evaluated.
\<close>

record 'log captured =
  entries :: "'log changeEntry list"
  fullUpdate :: bool
  removedCount :: int
  fullUpdateAttempts :: int

text \<open>\<^verbatim>\<open>xs[lo:]\<close>: Go panics unless \<open>0 \<le> lo \<le> len(xs)\<close>.\<close>

definition slice_from :: "'a list \<Rightarrow> int \<Rightarrow> panic + 'a list" where
  "slice_from xs lo =
     (if lo < 0 \<or> int (length xs) < lo then Inl SliceBoundsOutOfRange
      else Inr (drop (nat lo) xs))"

text \<open>\<^verbatim>\<open>for _, entry := range entries { channelLog.Add(*entry.logEntry) }\<close>\<close>

fun add_entries ::
  "'log channels_pkg \<Rightarrow> 'log \<Rightarrow> 'log changeEntry list \<Rightarrow> panic + 'log" where
  "add_entries ch channelLog [] = Inr channelLog"
| "add_entries ch channelLog (entry # rest) =
     (case logEntry entry of
        None \<Rightarrow> Inl NilPointerDereference
      | Some le \<Rightarrow> add_entries ch (ChangeLog_Add ch channelLog le) rest)"

text \<open>\<^verbatim>\<open>for _, entry := range entries { entry.logEntry.Encode(w, entry.parentRevID) }\<close>,
  with \<open>w\<close> the bytes already in the buffer.\<close>

fun encode_entries ::
  "'log channels_pkg \<Rightarrow> bytes \<Rightarrow> 'log changeEntry list \<Rightarrow> panic + bytes" where
  "encode_entries ch w [] = Inr w"
| "encode_entries ch w (entry # rest) =
     (case logEntry entry of
        None \<Rightarrow> Inl NilPointerDereference
      | Some le \<Rightarrow> encode_entries ch (w @ LogEntry_Encode ch le (parentRevID entry)) rest)"

text \<open>The last three statements of the callback: append to the raw log bytes.\<close>

definition append_encoded ::
  "'log channels_pkg \<Rightarrow> 'log captured \<Rightarrow> bytes \<Rightarrow>
     panic + ('log captured \<times> bytes \<times> WriteOptions \<times> 'err option)" where
  "append_encoded ch s currentValue =
     (case encode_entries ch [] (entries s) of
        Inl p \<Rightarrow> Inl p
      | Inr w \<Rightarrow> Inr (s, currentValue @ w, Raw, None))"

definition addToChangeLog_callback ::
  "'log channels_pkg \<Rightarrow> config \<Rightarrow> 'log captured \<Rightarrow> bytes \<Rightarrow> int \<Rightarrow>
     panic + ('log captured \<times> bytes \<times> WriteOptions \<times> 'err option)" where
  "addToChangeLog_callback ch cfg s currentValue r =
     (let s1 = s\<lparr>fullUpdate :=
                  AlwaysCompactChangeLog cfg \<or>
                  (int (length currentValue) > 20000 \<and>
                   r < int (length currentValue) sdiv 5000),
                removedCount := 0\<rparr>;
          numToKeep = MaxChangeLogLength cfg - int (length (entries s1))
      in
        if length currentValue = 0 \<or> numToKeep \<le> 0 then
          (case (if numToKeep < 0 then slice_from (entries s1) (- numToKeep)
                 else Inr (entries s1)) of
             Inl p \<Rightarrow> Inl p
           | Inr es \<Rightarrow>
               (case add_entries ch (ChangeLog_empty ch) es of
                  Inl p \<Rightarrow> Inl p
                | Inr channelLog \<Rightarrow>
                    Inr (s1\<lparr>entries := es\<rparr>,
                         bytes_of (encodeChannelLog ch (Some channelLog)), Raw, None)))
        else if fullUpdate s1 then
          (let s2 = s1\<lparr>fullUpdateAttempts := fullUpdateAttempts s1 + 1\<rparr>;
               t = TruncateEncodedChangeLog ch currentValue numToKeep (numToKeep sdiv 2);
               s3 = s2\<lparr>removedCount := fst t\<rparr>
           in
             if removedCount s3 > 0 then
               (case encode_entries ch (snd t) (entries s3) of
                  Inl p \<Rightarrow> Inl p
                | Inr newValue \<Rightarrow> Inr (s3, newValue, Raw, None))
             else append_encoded ch s3 currentValue)
        else append_encoded ch s1 currentValue)"

text \<open>
  \<^verbatim>\<open>addToChangeLog_\<close> hands the callback and the captured variables to the
  store's \<^verbatim>\<open>WriteUpdate\<close>, a parameter, and returns the error \<^verbatim>\<open>WriteUpdate\<close>
  returns.
\<close>

definition addToChangeLog_' ::
  "(string \<Rightarrow> int \<Rightarrow>
      ('log captured \<Rightarrow> bytes \<Rightarrow> int \<Rightarrow>
         panic + ('log captured \<times> bytes \<times> WriteOptions \<times> 'err option)) \<Rightarrow>
      'log captured \<Rightarrow> 'res) \<Rightarrow>
   'log channels_pkg \<Rightarrow> config \<Rightarrow> string \<Rightarrow> 'log changeEntry list \<Rightarrow> 'res" where
  "addToChangeLog_' WriteUpdate ch cfg channelName batch =
     (let logDocID = channelLogDocID channelName
      in WriteUpdate logDocID 0 (addToChangeLog_callback ch cfg)
           \<lparr>entries = batch, fullUpdate = False, removedCount = 0, fullUpdateAttempts = 0\<rparr>)"

subsection \<open>The mailbox and its drain\<close>

text \<open>
  The channel \<^verbatim>\<open>io\<close> is seen from the receiving goroutine: it is the list of
  what its successive receive operations meet. \<open>Received entry\<close> is an item in
  the buffer, \<open>ChannelClosed\<close> is the closed and drained channel (it stays
  closed, so the event is not consumed), \<open>NotReady\<close> is an open channel with an
  empty buffer at that moment. A blocking receive waits through \<open>NotReady\<close>;
  when the list is exhausted it waits forever, which is the result \<open>Blocked\<close>.
  The \<^verbatim>\<open>select\<close> with a \<^verbatim>\<open>default\<close> case does not wait. Every interleaving
  of the senders with the receiver is such a list.

  The store is a state \<open>'b\<close> and its \<^verbatim>\<open>AddRaw\<close> a parameter.
\<close>

datatype 'log recv = Received "'log changeEntry" | ChannelClosed | NotReady

datatype 'a blocking = Blocked | Returned 'a

text \<open>\<^verbatim>\<open>addChangeLog_\<close>; its caller passes a log that is not nil. The two log
  lines have no effect on the state.\<close>

definition addChangeLog_' ::
  "(string \<Rightarrow> int \<Rightarrow> bytes option \<Rightarrow> 'b \<Rightarrow> (bool \<times> 'err option) \<times> 'b) \<Rightarrow>
   'log channels_pkg \<Rightarrow> string \<Rightarrow> 'log \<Rightarrow> 'b \<Rightarrow> (bool \<times> 'err option) \<times> 'b" where
  "addChangeLog_' AddRaw ch channelName log bucket =
     AddRaw (channelLogDocID channelName) 0 (encodeChannelLog ch (Some log)) bucket"

fun readChange_' ::
  "(string \<Rightarrow> int \<Rightarrow> bytes option \<Rightarrow> 'b \<Rightarrow> (bool \<times> 'err option) \<times> 'b) \<Rightarrow>
   'log channels_pkg \<Rightarrow> string \<Rightarrow> 'log recv list \<Rightarrow> 'b \<Rightarrow>
   ('log changeEntry option \<times> 'log recv list \<times> 'b) blocking" where
  "readChange_' AddRaw ch channelName [] bucket = Blocked"
| "readChange_' AddRaw ch channelName (NotReady # io) bucket =
     readChange_' AddRaw ch channelName io bucket"
| "readChange_' AddRaw ch channelName (ChannelClosed # io) bucket =
     Returned (None, ChannelClosed # io, bucket)"
| "readChange_' AddRaw ch channelName (Received entry # io) bucket =
     (case replacementLog entry of
        Some log \<Rightarrow>
          readChange_' AddRaw ch channelName io
            (snd (addChangeLog_' AddRaw ch channelName log bucket))
      | None \<Rightarrow> Returned (Some entry, io, bucket))"

text \<open>The labelled loop of \<^verbatim>\<open>readChanges_\<close>; \<open>batch\<close> is the slice \<^verbatim>\<open>entries\<close>.\<close>

fun readChanges_loop ::
  "(string \<Rightarrow> int \<Rightarrow> bytes option \<Rightarrow> 'b \<Rightarrow> (bool \<times> 'err option) \<times> 'b) \<Rightarrow>
   'log channels_pkg \<Rightarrow> string \<Rightarrow> 'log changeEntry list \<Rightarrow> 'log recv list \<Rightarrow> 'b \<Rightarrow>
   'log changeEntry list \<times> 'log recv list \<times> 'b" where
  "readChanges_loop AddRaw ch channelName batch [] bucket = (batch, [], bucket)"
| "readChanges_loop AddRaw ch channelName batch (ev # io) bucket =
     (if length batch < kChannelLogWriterQueueLength then
        (case ev of
           NotReady \<Rightarrow> (batch, io, bucket)
         | ChannelClosed \<Rightarrow> (batch, ev # io, bucket)
         | Received entry \<Rightarrow>
             (case replacementLog entry of
                Some log \<Rightarrow>
                  readChanges_loop AddRaw ch channelName batch io
                    (snd (addChangeLog_' AddRaw ch channelName log bucket))
              | None \<Rightarrow> readChanges_loop AddRaw ch channelName (batch @ [entry]) io bucket))
      else (batch, ev # io, bucket))"

text \<open>\<^verbatim>\<open>readChanges_\<close>: \<open>None\<close> is the nil slice returned when \<^verbatim>\<open>io\<close> is closed.\<close>

definition readChanges_' ::
  "(string \<Rightarrow> int \<Rightarrow> bytes option \<Rightarrow> 'b \<Rightarrow> (bool \<times> 'err option) \<times> 'b) \<Rightarrow>
   'log channels_pkg \<Rightarrow> string \<Rightarrow> 'log recv list \<Rightarrow> 'b \<Rightarrow>
   ('log changeEntry list option \<times> 'log recv list \<times> 'b) blocking" where
  "readChanges_' AddRaw ch channelName io bucket =
     (case readChange_' AddRaw ch channelName io bucket of
        Blocked \<Rightarrow> Blocked
      | Returned (None, io', bucket') \<Rightarrow> Returned (None, io', bucket')
      | Returned (Some entry, io', bucket') \<Rightarrow>
          (case readChanges_loop AddRaw ch channelName [entry] io' bucket' of
             (batch, io'', bucket'') \<Rightarrow> Returned (Some batch, io'', bucket'')))"



subsection \<open>Sorting a batch\<close>

text \<open>
  The three methods of \<^verbatim>\<open>changeEntryList\<close>. \<^verbatim>\<open>Less\<close> reads
  \<^verbatim>\<open>cl[i].logEntry.Sequence\<close> and then \<^verbatim>\<open>cl[j].logEntry.Sequence\<close>: an
  index out of range and a nil \<^verbatim>\<open>logEntry\<close> are panics, met in that order.
\<close>

definition Len :: "'log changeEntry list \<Rightarrow> nat" where
  "Len cl = length cl"

definition Less :: "'log changeEntry list \<Rightarrow> nat \<Rightarrow> nat \<Rightarrow> panic + bool" where
  "Less cl i j =
     (if length cl \<le> i then Inl IndexOutOfRange
      else
        (case logEntry (cl ! i) of
           None \<Rightarrow> Inl NilPointerDereference
         | Some a \<Rightarrow>
             (if length cl \<le> j then Inl IndexOutOfRange
              else
                (case logEntry (cl ! j) of
                   None \<Rightarrow> Inl NilPointerDereference
                 | Some b \<Rightarrow> Inr (Sequence a < Sequence b)))))"

definition Swap :: "'log changeEntry list \<Rightarrow> nat \<Rightarrow> nat \<Rightarrow> panic + 'log changeEntry list" where
  "Swap cl i j =
     (if length cl \<le> i \<or> length cl \<le> j then Inl IndexOutOfRange
      else Inr (cl[i := cl ! j, j := cl ! i]))"

text \<open>
  \<^verbatim>\<open>sort.Sort\<close> belongs to the Go standard library. It is embedded as the
  library has it since Go 1.19: pattern-defeating quicksort (\<^verbatim>\<open>pdqsort\<close>,
  with \<^verbatim>\<open>insertionSort\<close>, \<^verbatim>\<open>heapSort\<close>, \<^verbatim>\<open>choosePivot\<close>,
  \<^verbatim>\<open>reverseRange\<close>, \<^verbatim>\<open>partialInsertionSort\<close>, \<^verbatim>\<open>breakPatterns\<close>,
  \<^verbatim>\<open>partitionEqual\<close> and \<^verbatim>\<open>partition\<close>), which reaches the slice only
  through \<^verbatim>\<open>Len\<close>, \<^verbatim>\<open>Less\<close> and \<^verbatim>\<open>Swap\<close>. The library sorts the slice in
  place; here each function returns the slice it leaves. Indices are natural
  numbers; each loop of the library is a recursive function, named after the
  function of the library it belongs to and the variable it advances.

  \<^verbatim>\<open>data_Less\<close> and \<^verbatim>\<open>data_Swap\<close> are the calls \<^verbatim>\<open>data.Less(i, j)\<close> and
  \<^verbatim>\<open>data.Swap(i, j)\<close> the library makes. A panic of a method ends the sort;
  it is accounted for in \<^verbatim>\<open>massageChanges\<close> below, and on a call that
  panics \<^verbatim>\<open>data_Less\<close> is false and \<^verbatim>\<open>data_Swap\<close> leaves the slice. No
  such call occurs on a batch whose entries all carry a \<^verbatim>\<open>logEntry\<close>: the
  facts proved about the sort have every index passed to the two methods
  below the length of the slice, where \<^verbatim>\<open>Less\<close> returns the comparison of
  the two sequences and \<^verbatim>\<open>Swap\<close> the slice with the two entries exchanged.
\<close>

definition data_Less :: "'log changeEntry list \<Rightarrow> nat \<Rightarrow> nat \<Rightarrow> bool" where
  "data_Less data i j \<longleftrightarrow> Less data i j = Inr True"

definition data_Swap :: "'log changeEntry list \<Rightarrow> nat \<Rightarrow> nat \<Rightarrow> 'log changeEntry list" where
  "data_Swap data i j = (case Swap data i j of Inr data' \<Rightarrow> data' | Inl p \<Rightarrow> data)"

function insertionSort_j :: "'log changeEntry list \<Rightarrow> nat \<Rightarrow> nat \<Rightarrow> 'log changeEntry list" where
  "insertionSort_j data a j =
     (if a < j \<and> data_Less data j (j - 1)
      then insertionSort_j (data_Swap data j (j - 1)) a (j - 1)
      else data)"
  by pat_completeness auto
termination
  by (relation "measure (\<lambda>(data, a, j). j)") auto

declare insertionSort_j.simps [simp del]

function insertionSort_i :: "'log changeEntry list \<Rightarrow> nat \<Rightarrow> nat \<Rightarrow> nat \<Rightarrow> 'log changeEntry list" where
  "insertionSort_i data a b i =
     (if i < b then insertionSort_i (insertionSort_j data a i) a b (i + 1) else data)"
  by pat_completeness auto
termination
  by (relation "measure (\<lambda>(data, a, b, i). b - i)") auto

declare insertionSort_i.simps [simp del]

definition insertionSort :: "'log changeEntry list \<Rightarrow> nat \<Rightarrow> nat \<Rightarrow> 'log changeEntry list" where
  "insertionSort data a b = insertionSort_i data a b (a + 1)"

text \<open>\<^verbatim>\<open>siftDown\<close> and \<^verbatim>\<open>heapSort\<close>. In Go \<^verbatim>\<open>(hi - 1) / 2\<close> is 0 for
  \<^verbatim>\<open>hi = 0\<close>, as is the quotient of natural numbers.\<close>

function siftDown_root ::
  "'log changeEntry list \<Rightarrow> nat \<Rightarrow> nat \<Rightarrow> nat \<Rightarrow> 'log changeEntry list" where
  "siftDown_root data root hi first =
     (let child = 2 * root + 1 in
      if child \<ge> hi then data
      else
        (let child = (if child + 1 < hi \<and> data_Less data (first + child) (first + child + 1)
                      then child + 1 else child)
         in if \<not> data_Less data (first + root) (first + child) then data
            else siftDown_root (data_Swap data (first + root) (first + child)) child hi first))"
  by pat_completeness auto
termination
  apply (relation "measure (\<lambda>(data, root, hi, first). hi - root)")
   apply simp
  apply (simp split: if_splits)
  apply linarith
  done

declare siftDown_root.simps [simp del]

definition siftDown :: "'log changeEntry list \<Rightarrow> nat \<Rightarrow> nat \<Rightarrow> nat \<Rightarrow> 'log changeEntry list" where
  "siftDown data lo hi first = siftDown_root data lo hi first"

fun heapSort_build :: "'log changeEntry list \<Rightarrow> nat \<Rightarrow> nat \<Rightarrow> nat \<Rightarrow> 'log changeEntry list" where
  "heapSort_build data 0 hi first = siftDown data 0 hi first"
| "heapSort_build data (Suc i) hi first =
     heapSort_build (siftDown data (Suc i) hi first) i hi first"

fun heapSort_pop :: "'log changeEntry list \<Rightarrow> nat \<Rightarrow> nat \<Rightarrow> nat \<Rightarrow> 'log changeEntry list" where
  "heapSort_pop data 0 lo first = siftDown (data_Swap data first (first + 0)) lo 0 first"
| "heapSort_pop data (Suc i) lo first =
     heapSort_pop (siftDown (data_Swap data first (first + Suc i)) lo (Suc i) first) i lo first"

definition heapSort :: "'log changeEntry list \<Rightarrow> nat \<Rightarrow> nat \<Rightarrow> 'log changeEntry list" where
  "heapSort data a b =
     (let first = a; lo = 0; hi = b - a;
          data = heapSort_build data ((hi - 1) div 2) hi first
      in if hi = 0 then data else heapSort_pop data (hi - 1) lo first)"

text \<open>\<^verbatim>\<open>choosePivot\<close> with \<^verbatim>\<open>order2\<close>, \<^verbatim>\<open>median\<close> and \<^verbatim>\<open>medianAdjacent\<close>; the
  counter \<^verbatim>\<open>swaps\<close> is passed and returned.\<close>

datatype sortedHint = unknownHint | increasingHint | decreasingHint

definition order2 :: "'log changeEntry list \<Rightarrow> nat \<Rightarrow> nat \<Rightarrow> nat \<Rightarrow> nat \<times> nat \<times> nat" where
  "order2 data a b swaps = (if data_Less data b a then (b, a, swaps + 1) else (a, b, swaps))"

definition median :: "'log changeEntry list \<Rightarrow> nat \<Rightarrow> nat \<Rightarrow> nat \<Rightarrow> nat \<Rightarrow> nat \<times> nat" where
  "median data a b c swaps =
     (case order2 data a b swaps of (a, b, swaps) \<Rightarrow>
      case order2 data b c swaps of (b, c, swaps) \<Rightarrow>
      case order2 data a b swaps of (a, b, swaps) \<Rightarrow> (b, swaps))"

definition medianAdjacent :: "'log changeEntry list \<Rightarrow> nat \<Rightarrow> nat \<Rightarrow> nat \<times> nat" where
  "medianAdjacent data a swaps = median data (a - 1) a (a + 1) swaps"

definition choosePivot :: "'log changeEntry list \<Rightarrow> nat \<Rightarrow> nat \<Rightarrow> nat \<times> sortedHint" where
  "choosePivot data a b =
     (let l = b - a; swaps = 0;
          i = a + l div 4 * 1; j = a + l div 4 * 2; k = a + l div 4 * 3;
          (j, swaps) =
            (if l \<ge> 8 then
               (case (if l \<ge> 50 then
                        (case medianAdjacent data i swaps of (i, swaps) \<Rightarrow>
                         case medianAdjacent data j swaps of (j, swaps) \<Rightarrow>
                         case medianAdjacent data k swaps of (k, swaps) \<Rightarrow> (i, j, k, swaps))
                      else (i, j, k, swaps)) of
                  (i, j, k, swaps) \<Rightarrow> median data i j k swaps)
             else (j, swaps))
      in if swaps = 0 then (j, increasingHint)
         else if swaps = 4 * 3 then (j, decreasingHint)
         else (j, unknownHint))"

text \<open>\<^verbatim>\<open>reverseRange\<close> and \<^verbatim>\<open>partialInsertionSort\<close>: \<^verbatim>\<open>maxSteps\<close> is 5 and
  \<^verbatim>\<open>shortestShifting\<close> is 50.\<close>

function reverseRange_loop :: "'log changeEntry list \<Rightarrow> nat \<Rightarrow> nat \<Rightarrow> 'log changeEntry list" where
  "reverseRange_loop data i j =
     (if i < j then reverseRange_loop (data_Swap data i j) (i + 1) (j - 1) else data)"
  by pat_completeness auto
termination
  by (relation "measure (\<lambda>(data, i, j). j - i)") auto

declare reverseRange_loop.simps [simp del]

definition reverseRange :: "'log changeEntry list \<Rightarrow> nat \<Rightarrow> nat \<Rightarrow> 'log changeEntry list" where
  "reverseRange data a b = reverseRange_loop data a (b - 1)"

function partialInsertionSort_scan :: "'log changeEntry list \<Rightarrow> nat \<Rightarrow> nat \<Rightarrow> nat" where
  "partialInsertionSort_scan data b i =
     (if i < b \<and> \<not> data_Less data i (i - 1) then partialInsertionSort_scan data b (i + 1) else i)"
  by pat_completeness auto
termination
  by (relation "measure (\<lambda>(data, b, i). b - i)") auto

declare partialInsertionSort_scan.simps [simp del]

function partialInsertionSort_left :: "'log changeEntry list \<Rightarrow> nat \<Rightarrow> 'log changeEntry list" where
  "partialInsertionSort_left data j =
     (if j \<ge> 1 then
        (if \<not> data_Less data j (j - 1) then data
         else partialInsertionSort_left (data_Swap data j (j - 1)) (j - 1))
      else data)"
  by pat_completeness auto
termination
  by (relation "measure (\<lambda>(data, j). j)") auto

declare partialInsertionSort_left.simps [simp del]

function partialInsertionSort_right :: "'log changeEntry list \<Rightarrow> nat \<Rightarrow> nat \<Rightarrow> 'log changeEntry list" where
  "partialInsertionSort_right data b j =
     (if j < b then
        (if \<not> data_Less data j (j - 1) then data
         else partialInsertionSort_right (data_Swap data j (j - 1)) b (j + 1))
      else data)"
  by pat_completeness auto
termination
  by (relation "measure (\<lambda>(data, b, j). b - j)") auto

declare partialInsertionSort_right.simps [simp del]

definition partialInsertionSort_shift ::
  "'log changeEntry list \<Rightarrow> nat \<Rightarrow> nat \<Rightarrow> nat \<Rightarrow> 'log changeEntry list" where
  "partialInsertionSort_shift data a b i =
     (let data = data_Swap data i (i - 1);
          data = (if i - a \<ge> 2 then partialInsertionSort_left data (i - 1) else data)
      in if b - i \<ge> 2 then partialInsertionSort_right data b (i + 1) else data)"

function partialInsertionSort_steps ::
  "'log changeEntry list \<Rightarrow> nat \<Rightarrow> nat \<Rightarrow> nat \<Rightarrow> nat \<Rightarrow> 'log changeEntry list \<times> bool" where
  "partialInsertionSort_steps data a b i j =
     (if j < 5 then
        (if partialInsertionSort_scan data b i = b then (data, True)
         else if b - a < 50 then (data, False)
         else partialInsertionSort_steps
                (partialInsertionSort_shift data a b (partialInsertionSort_scan data b i))
                a b (partialInsertionSort_scan data b i) (j + 1))
      else (data, False))"
  by pat_completeness auto
termination
  by (relation "measure (\<lambda>(data, a, b, i, j). 5 - j)") simp_all

declare partialInsertionSort_steps.simps [simp del]

definition partialInsertionSort :: "'log changeEntry list \<Rightarrow> nat \<Rightarrow> nat \<Rightarrow> 'log changeEntry list \<times> bool" where
  "partialInsertionSort data a b = partialInsertionSort_steps data a b (a + 1) 0"

text \<open>
  \<^verbatim>\<open>partition\<close> and \<^verbatim>\<open>partitionEqual\<close>. The scan from the left is
  \<^verbatim>\<open>partition_i\<close> and the scan from the right \<^verbatim>\<open>partition_j\<close>. The latter
  is called with \<^verbatim>\<open>i\<close> at least \<^verbatim>\<open>a + 1\<close>: it stops with \<^verbatim>\<open>j\<close> at
  \<^verbatim>\<open>i - 1\<close> at the latest and never passes below 0. The two scans leave
  \<^verbatim>\<open>i\<close> and \<^verbatim>\<open>j\<close> no further apart, which makes the loop around them end.
  \<^verbatim>\<open>partition\<close> is named \<^verbatim>\<open>partition'\<close> here.
\<close>

function partition_i :: "'log changeEntry list \<Rightarrow> nat \<Rightarrow> nat \<Rightarrow> nat \<Rightarrow> nat" where
  "partition_i data a i j =
     (if i \<le> j \<and> data_Less data i a then partition_i data a (i + 1) j else i)"
  by pat_completeness auto
termination
  by (relation "measure (\<lambda>(data, a, i, j). j + 1 - i)") (simp, simp, arith)

declare partition_i.simps [simp del]

fun partition_j :: "'log changeEntry list \<Rightarrow> nat \<Rightarrow> nat \<Rightarrow> nat \<Rightarrow> nat" where
  "partition_j data a i 0 = 0"
| "partition_j data a i (Suc j) =
     (if i \<le> Suc j \<and> \<not> data_Less data (Suc j) a then partition_j data a i j else Suc j)"

lemma partition_i_ge: "i \<le> partition_i data a i j"
proof (induction data a i j rule: partition_i.induct)
  case (1 data a i j)
  then show ?case by (subst partition_i.simps) auto
qed

lemma partition_j_le: "partition_j data a i j \<le> j"
  by (induction j) auto

function partition_loop ::
  "'log changeEntry list \<Rightarrow> nat \<Rightarrow> nat \<Rightarrow> nat \<Rightarrow> 'log changeEntry list \<times> nat" where
  "partition_loop data a i j =
     (if partition_i data a i j > partition_j data a (partition_i data a i j) j
      then (data, partition_j data a (partition_i data a i j) j)
      else partition_loop
             (data_Swap data (partition_i data a i j)
                (partition_j data a (partition_i data a i j) j))
             a (partition_i data a i j + 1)
             (partition_j data a (partition_i data a i j) j - 1))"
  by pat_completeness auto
termination
proof (relation "measure (\<lambda>(data, a, i, j). j + 1 - i)", goal_cases)
  case 1
  then show ?case by simp
next
  case (2 data a i j)
  have "i \<le> partition_i data a i j" by (rule partition_i_ge)
  moreover have "partition_j data a (partition_i data a i j) j \<le> j" by (rule partition_j_le)
  ultimately show ?case using 2 by simp
qed

declare partition_loop.simps [simp del]

definition partition' ::
  "'log changeEntry list \<Rightarrow> nat \<Rightarrow> nat \<Rightarrow> nat \<Rightarrow> 'log changeEntry list \<times> nat \<times> bool" where
  "partition' data a b pivot =
     (let data = data_Swap data a pivot;
          i = partition_i data a (a + 1) (b - 1);
          j = partition_j data a i (b - 1)
      in if i > j then (data_Swap data j a, j, True)
         else
           (case partition_loop (data_Swap data i j) a (i + 1) (j - 1) of
              (data, j) \<Rightarrow> (data_Swap data j a, j, False)))"

function partitionEqual_i :: "'log changeEntry list \<Rightarrow> nat \<Rightarrow> nat \<Rightarrow> nat \<Rightarrow> nat" where
  "partitionEqual_i data a i j =
     (if i \<le> j \<and> \<not> data_Less data a i then partitionEqual_i data a (i + 1) j else i)"
  by pat_completeness auto
termination
  by (relation "measure (\<lambda>(data, a, i, j). j + 1 - i)") (simp, simp, arith)

declare partitionEqual_i.simps [simp del]

fun partitionEqual_j :: "'log changeEntry list \<Rightarrow> nat \<Rightarrow> nat \<Rightarrow> nat \<Rightarrow> nat" where
  "partitionEqual_j data a i 0 = 0"
| "partitionEqual_j data a i (Suc j) =
     (if i \<le> Suc j \<and> data_Less data a (Suc j) then partitionEqual_j data a i j else Suc j)"

lemma partitionEqual_i_ge: "i \<le> partitionEqual_i data a i j"
proof (induction data a i j rule: partitionEqual_i.induct)
  case (1 data a i j)
  then show ?case by (subst partitionEqual_i.simps) auto
qed

lemma partitionEqual_j_le: "partitionEqual_j data a i j \<le> j"
  by (induction j) auto

function partitionEqual_loop ::
  "'log changeEntry list \<Rightarrow> nat \<Rightarrow> nat \<Rightarrow> nat \<Rightarrow> 'log changeEntry list \<times> nat" where
  "partitionEqual_loop data a i j =
     (if partitionEqual_i data a i j > partitionEqual_j data a (partitionEqual_i data a i j) j
      then (data, partitionEqual_i data a i j)
      else partitionEqual_loop
             (data_Swap data (partitionEqual_i data a i j)
                (partitionEqual_j data a (partitionEqual_i data a i j) j))
             a (partitionEqual_i data a i j + 1)
             (partitionEqual_j data a (partitionEqual_i data a i j) j - 1))"
  by pat_completeness auto
termination
proof (relation "measure (\<lambda>(data, a, i, j). j + 1 - i)", goal_cases)
  case 1
  then show ?case by simp
next
  case (2 data a i j)
  have "i \<le> partitionEqual_i data a i j" by (rule partitionEqual_i_ge)
  moreover have "partitionEqual_j data a (partitionEqual_i data a i j) j \<le> j"
    by (rule partitionEqual_j_le)
  ultimately show ?case using 2 by simp
qed

declare partitionEqual_loop.simps [simp del]

definition partitionEqual ::
  "'log changeEntry list \<Rightarrow> nat \<Rightarrow> nat \<Rightarrow> nat \<Rightarrow> 'log changeEntry list \<times> nat" where
  "partitionEqual data a b pivot =
     partitionEqual_loop (data_Swap data a pivot) a (a + 1) (b - 1)"

text \<open>
  \<^verbatim>\<open>bits.Len\<close>, the generator \<^verbatim>\<open>xorshift\<close> and \<^verbatim>\<open>breakPatterns\<close> over
  64-bit words; no statement below depends on the values the generator
  draws. The first part of an iteration of \<^verbatim>\<open>pdqsort\<close>, up to the
  choice of the pivot and the attempt of \<^verbatim>\<open>partialInsertionSort\<close>, is
  \<^verbatim>\<open>pdqsort_pivot\<close>: it returns the slice, the limit, the pivot, and whether
  the slice was found sorted.
\<close>

function bits_Len :: "nat \<Rightarrow> nat" where
  "bits_Len n = (if n = 0 then 0 else Suc (bits_Len (n div 2)))"
  by pat_completeness auto
termination
  by (relation "measure id") simp_all

declare bits_Len.simps [simp del]

definition xorshift_Next :: "64 word \<Rightarrow> 64 word" where
  "xorshift_Next r =
     (let r = r XOR push_bit 13 r;
          r = r XOR drop_bit 7 r
      in r XOR push_bit 17 r)"

definition nextPowerOfTwo :: "nat \<Rightarrow> 64 word" where
  "nextPowerOfTwo len = push_bit (bits_Len len) 1"

function breakPatterns_loop ::
  "'log changeEntry list \<Rightarrow> nat \<Rightarrow> nat \<Rightarrow> nat \<Rightarrow> 64 word \<Rightarrow> 64 word \<Rightarrow> nat \<Rightarrow>
   'log changeEntry list" where
  "breakPatterns_loop data a len idx modulus random i =
     (if i < 3 then
        breakPatterns_loop
          (data_Swap data (idx - 1 + i)
             (a + (if unat (xorshift_Next random AND (modulus - 1)) \<ge> len
                   then unat (xorshift_Next random AND (modulus - 1)) - len
                   else unat (xorshift_Next random AND (modulus - 1)))))
          a len idx modulus (xorshift_Next random) (i + 1)
      else data)"
  by pat_completeness auto
termination
  by (relation "measure (\<lambda>(data, a, len, idx, modulus, random, i). 3 - i)") simp_all

declare breakPatterns_loop.simps [simp del]

definition breakPatterns :: "'log changeEntry list \<Rightarrow> nat \<Rightarrow> nat \<Rightarrow> 'log changeEntry list" where
  "breakPatterns data a b =
     (let len = b - a in
      if len \<ge> 8 then
        breakPatterns_loop data a len (a + (len div 4) * 2 - 1)
          (nextPowerOfTwo len) (of_nat len) 0
      else data)"

definition pdqsort_pivot ::
  "'log changeEntry list \<Rightarrow> nat \<Rightarrow> nat \<Rightarrow> nat \<Rightarrow> bool \<Rightarrow> bool \<Rightarrow>
   'log changeEntry list \<times> nat \<times> nat \<times> bool" where
  "pdqsort_pivot data a b limit wasBalanced wasPartitioned =
     (let (data, limit) =
            (if \<not> wasBalanced then (breakPatterns data a b, limit - 1) else (data, limit));
          (pivot, hint) = choosePivot data a b;
          (data, pivot, hint) =
            (if hint = decreasingHint
             then (reverseRange data a b, (b - 1) - (pivot - a), increasingHint)
             else (data, pivot, hint))
      in if wasBalanced \<and> wasPartitioned \<and> hint = increasingHint
         then (case partialInsertionSort data a b of
                 (data, isSorted) \<Rightarrow> (data, limit, pivot, isSorted))
         else (data, limit, pivot, False))"

text \<open>
  The pivot returned by \<^verbatim>\<open>partition\<close> lies in the range and the one returned
  by \<^verbatim>\<open>partitionEqual\<close> lies after its start, so each call of \<^verbatim>\<open>pdqsort\<close>
  from within itself is on a shorter range.
\<close>

lemma partition_j_lower: "a < i \<Longrightarrow> a \<le> j \<Longrightarrow> a \<le> partition_j data a i j"
  by (induction j) auto

lemma partition_loop_bounds:
  "a < i \<Longrightarrow> a \<le> j \<Longrightarrow> partition_loop data a i j = (d, r) \<Longrightarrow> a \<le> r \<and> r \<le> j"
proof (induction data a i j arbitrary: d r rule: partition_loop.induct)
  case (1 data a i j)
  let ?i = "partition_i data a i j"
  let ?j = "partition_j data a ?i j"
  have i: "i \<le> ?i" by (rule partition_i_ge)
  have j: "?j \<le> j" by (rule partition_j_le)
  have jl: "a \<le> ?j" using 1(2,3) i by (intro partition_j_lower) auto
  show ?case
  proof (cases "?i > ?j")
    case True
    then have "r = ?j" using 1(4) by (subst (asm) partition_loop.simps) auto
    then show ?thesis using j jl by simp
  next
    case False
    then have step: "partition_loop (data_Swap data ?i ?j) a (?i + 1) (?j - 1) = (d, r)"
      using 1(4) by (subst (asm) partition_loop.simps) simp
    have "a \<le> r \<and> r \<le> ?j - 1"
      using False 1(2) i by (intro 1(1) [OF False _ _ step]) auto
    then show ?thesis using j by auto
  qed
qed

lemma partition_mid:
  assumes "partition' data a b pivot = (d, mid, ap)" "a < b"
  shows "a \<le> mid \<and> mid < b"
proof -
  let ?d = "data_Swap data a pivot"
  let ?i = "partition_i ?d a (a + 1) (b - 1)"
  let ?j = "partition_j ?d a ?i (b - 1)"
  have i: "a + 1 \<le> ?i" by (rule partition_i_ge)
  have j: "?j \<le> b - 1" by (rule partition_j_le)
  have jl: "a \<le> ?j" using i assms(2) by (intro partition_j_lower) auto
  show ?thesis
  proof (cases "?i > ?j")
    case True
    then have "mid = ?j" using assms(1) by (simp add: partition'_def Let_def)
    then show ?thesis using j jl assms(2) by auto
  next
    case False
    obtain d2 j2 where loop: "partition_loop (data_Swap ?d ?i ?j) a (?i + 1) (?j - 1) = (d2, j2)"
      by (cases "partition_loop (data_Swap ?d ?i ?j) a (?i + 1) (?j - 1)")
    then have m: "mid = j2" using assms(1) False by (simp add: partition'_def Let_def)
    have "a \<le> j2 \<and> j2 \<le> ?j - 1"
      using False i by (intro partition_loop_bounds [OF _ _ loop]) auto
    then show ?thesis using m j assms(2) by auto
  qed
qed

lemma partitionEqual_loop_ge: "partitionEqual_loop data a i j = (d, r) \<Longrightarrow> i \<le> r"
proof (induction data a i j arbitrary: d r rule: partitionEqual_loop.induct)
  case (1 data a i j)
  let ?i = "partitionEqual_i data a i j"
  let ?j = "partitionEqual_j data a ?i j"
  have i: "i \<le> ?i" by (rule partitionEqual_i_ge)
  show ?case
  proof (cases "?i > ?j")
    case True
    then have "r = ?i" using 1(2) by (subst (asm) partitionEqual_loop.simps) auto
    then show ?thesis using i by simp
  next
    case False
    then have step: "partitionEqual_loop (data_Swap data ?i ?j) a (?i + 1) (?j - 1) = (d, r)"
      using 1(2) by (subst (asm) partitionEqual_loop.simps) simp
    from 1(1) [OF False step] show ?thesis using i by simp
  qed
qed

lemma partitionEqual_mid:
  assumes "partitionEqual data a b pivot = (d, mid)"
  shows "a < mid"
  using partitionEqual_loop_ge [of "data_Swap data a pivot" a "a + 1" "b - 1" d mid] assms
  by (simp add: partitionEqual_def)

lemma partitionEqual_mid':
  "(d, mid) = partitionEqual data a b pivot \<Longrightarrow> a < mid"
  using partitionEqual_mid [of data a b pivot d mid] by simp

lemma partition_mid':
  "(d, r) = partition' data a b pivot \<Longrightarrow> (mid, ap) = r \<Longrightarrow> a < b \<Longrightarrow> a \<le> mid \<and> mid < b"
  using partition_mid [of data a b pivot d mid ap] by simp

text \<open>
  \<^verbatim>\<open>pdqsort\<close>: the loop continues on one part of the range after the call on
  the other part has returned; the flags \<^verbatim>\<open>wasBalanced\<close> and
  \<^verbatim>\<open>wasPartitioned\<close> of the loop are arguments.
\<close>

function pdqsort ::
  "'log changeEntry list \<Rightarrow> nat \<Rightarrow> nat \<Rightarrow> nat \<Rightarrow> bool \<Rightarrow> bool \<Rightarrow> 'log changeEntry list" where
  "pdqsort data a b limit wasBalanced wasPartitioned =
     (if b - a \<le> 12 then insertionSort data a b
      else if limit = 0 then heapSort data a b
      else
        (case pdqsort_pivot data a b limit wasBalanced wasPartitioned of
           (data, limit, pivot, isSorted) \<Rightarrow>
             if isSorted then data
             else if a > 0 \<and> \<not> data_Less data (a - 1) pivot then
               (case partitionEqual data a b pivot of
                  (data, mid) \<Rightarrow> pdqsort data mid b limit wasBalanced wasPartitioned)
             else
               (case partition' data a b pivot of
                  (data, mid, alreadyPartitioned) \<Rightarrow>
                    if mid - a < b - mid then
                      pdqsort (pdqsort data a mid limit True True) (mid + 1) b limit
                        (mid - a \<ge> (b - a) div 8) alreadyPartitioned
                    else
                      pdqsort (pdqsort data (mid + 1) b limit True True) a mid limit
                        (b - mid \<ge> (b - a) div 8) alreadyPartitioned)))"
  by pat_completeness auto
termination
proof (relation "measure (\<lambda>(data, a, b, limit, wasBalanced, wasPartitioned). b - a)", goal_cases)
  case 1
  then show ?case by simp
next
  case 2
  then show ?case using partitionEqual_mid' by fastforce
next
  case 3
  then show ?case using partition_mid' by fastforce
next
  case 4
  then show ?case using partition_mid' by fastforce
next
  case 5
  then show ?case using partition_mid' by fastforce
next
  case 6
  then show ?case using partition_mid' by fastforce
qed

declare pdqsort.simps [simp del]

definition sort_Sort :: "'log changeEntry list \<Rightarrow> 'log changeEntry list" where
  "sort_Sort data =
     (let n = Len data in
      if n \<le> 1 then data else pdqsort data 0 n (bits_Len n) True True)"

text \<open>
  A batch whose entries all carry a \<^verbatim>\<open>logEntry\<close>, and \<^verbatim>\<open>massageChanges\<close>,
  which sorts the slice and returns it. The sort of a slice of two entries or
  more passes every index to \<^verbatim>\<open>Less\<close>: up to twelve entries the insertion
  sort compares each entry with the one before it, and above twelve every
  entry of the slice is compared when the pivot is chosen, in the scan of
  \<^verbatim>\<open>partialInsertionSort\<close> or with the pivot in \<^verbatim>\<open>partition\<close>. An entry
  without a \<^verbatim>\<open>logEntry\<close> is then a nil dereference in \<^verbatim>\<open>Less\<close>. A slice of
  at most one entry is returned without a call of \<^verbatim>\<open>Less\<close>.
\<close>

definition batch_ok :: "'log changeEntry list \<Rightarrow> bool" where
  "batch_ok es \<longleftrightarrow> list_all (\<lambda>e. logEntry e \<noteq> None) es"

definition massageChanges :: "'log changeEntry list \<Rightarrow> panic + 'log changeEntry list" where
  "massageChanges changes =
     (if Len changes \<le> 1 \<or> batch_ok changes then Inr (sort_Sort changes)
      else Inl NilPointerDereference)"

text \<open>The \<^verbatim>\<open>Sequence\<close> of an append-type pending write.\<close>

definition seq_of :: "'log changeEntry \<Rightarrow> 64 word" where
  "seq_of entry = (case logEntry entry of Some le \<Rightarrow> Sequence le | None \<Rightarrow> 0)"

subsection \<open>The fan-out\<close>

text \<open>
  The registry \<^verbatim>\<open>logWriters\<close> maps a channel name to its writer; a writer is
  represented by what has been sent on its \<^verbatim>\<open>io\<close>, in the order sent.
\<close>

type_synonym 'log logWriters = "string \<rightharpoonup> 'log changeEntry list"

definition addChange :: "'log changeEntry list \<Rightarrow> LogEntry \<Rightarrow> string \<Rightarrow> 'log changeEntry list" where
  "addChange io entry parent =
     io @ [\<lparr>logEntry = Some entry, parentRevID = parent, replacementLog = None\<rparr>]"

definition addChannelLog :: "'log changeEntry list \<Rightarrow> 'log option \<Rightarrow> 'log changeEntry list" where
  "addChannelLog io log =
     io @ [\<lparr>logEntry = None, parentRevID = [], replacementLog = log\<rparr>]"

definition logWriterForChannel :: "'log logWriters \<Rightarrow> string \<Rightarrow> 'log logWriters \<times> 'log changeEntry list" where
  "logWriterForChannel writers channelName =
     (case writers channelName of
        None \<Rightarrow> (writers(channelName \<mapsto> []), [])
      | Some io \<Rightarrow> (writers, io))"

definition addToChangeLog :: "'log logWriters \<Rightarrow> string \<Rightarrow> LogEntry \<Rightarrow> string \<Rightarrow> 'log logWriters" where
  "addToChangeLog writers channelName entry parent =
     (case logWriterForChannel writers channelName of
        (writers', io) \<Rightarrow> writers'(channelName \<mapsto> addChange io entry parent))"

text \<open>
  The loop over \<^verbatim>\<open>channelMap\<close>. A Go map is visited in an order that is not
  specified: the map is given as the list of its pairs in the order of the
  visit. The parameter \<^verbatim>\<open>entry\<close> is one variable, assigned in every round and
  copied at each call.
\<close>

fun addToChangeLogs_loop ::
  "'log channels_pkg \<Rightarrow> (string \<times> ChannelRemoval option) list \<Rightarrow> LogEntry \<Rightarrow> string \<Rightarrow>
   'log logWriters \<Rightarrow> LogEntry \<times> 'log logWriters" where
  "addToChangeLogs_loop ch [] entry parent writers = (entry, writers)"
| "addToChangeLogs_loop ch ((channel, removal) # rest) entry parent writers =
     (case removal of
        Some rem \<Rightarrow>
          (if Seq rem \<noteq> Sequence entry then addToChangeLogs_loop ch rest entry parent writers
           else
             (let entry' = entry\<lparr>Flags := Flags entry OR Removed ch\<rparr>
              in addToChangeLogs_loop ch rest entry' parent
                   (addToChangeLog writers channel entry' parent)))
      | None \<Rightarrow>
          (let entry' = entry\<lparr>Flags := Flags entry AND NOT (Removed ch)\<rparr>
           in addToChangeLogs_loop ch rest entry' parent
                (addToChangeLog writers channel entry' parent)))"

definition addToChangeLogs ::
  "'log channels_pkg \<Rightarrow> config \<Rightarrow> (string \<times> ChannelRemoval option) list \<Rightarrow> LogEntry \<Rightarrow> string \<Rightarrow>
   'log logWriters \<Rightarrow> 'log logWriters \<times> 'err option" where
  "addToChangeLogs ch cfg channelMap entry parent writers =
     (case addToChangeLogs_loop ch channelMap entry parent writers of
        (entry1, writers1) \<Rightarrow>
          (if EnableStarChannelLog cfg then
             (addToChangeLog writers1 ''*''
                (entry1\<lparr>Flags := Flags entry1 AND NOT (Removed ch)\<rparr>) parent, None)
           else (writers1, None)))"

text \<open>What has been sent to a channel's writer; nothing when it has no writer.\<close>

definition sent_to :: "'log logWriters \<Rightarrow> string \<Rightarrow> 'log changeEntry list" where
  "sent_to writers channelName = (case writers channelName of None \<Rightarrow> [] | Some io \<Rightarrow> io)"

text \<open>
  The fan-out in the words of the specification: what one call sends to the
  channel \<open>c\<close>, computed from the entry as the caller passed it. A channel
  with a removal at another sequence gets nothing, one with a removal at the
  entry's sequence gets a copy with the \<^verbatim>\<open>Removed\<close> flag set, one without a
  removal gets a copy with the flag cleared, and the channel \<^verbatim>\<open>"*"\<close>, when
  enabled, gets one more copy with the flag cleared.
\<close>

definition set_Removed :: "'log channels_pkg \<Rightarrow> LogEntry \<Rightarrow> LogEntry" where
  "set_Removed ch entry = entry\<lparr>Flags := Flags entry OR Removed ch\<rparr>"

definition clear_Removed :: "'log channels_pkg \<Rightarrow> LogEntry \<Rightarrow> LogEntry" where
  "clear_Removed ch entry = entry\<lparr>Flags := Flags entry AND NOT (Removed ch)\<rparr>"

definition pending_append :: "LogEntry \<Rightarrow> string \<Rightarrow> 'log changeEntry" where
  "pending_append entry parent =
     \<lparr>logEntry = Some entry, parentRevID = parent, replacementLog = None\<rparr>"

definition spec_deliveries ::
  "'log channels_pkg \<Rightarrow> config \<Rightarrow> (string \<rightharpoonup> ChannelRemoval option) \<Rightarrow> LogEntry \<Rightarrow> string \<Rightarrow>
   string \<Rightarrow> 'log changeEntry list" where
  "spec_deliveries ch cfg membership entry parent c =
     (case membership c of
        None \<Rightarrow> []
      | Some None \<Rightarrow> [pending_append (clear_Removed ch entry) parent]
      | Some (Some removal) \<Rightarrow>
          (if Seq removal = Sequence entry
           then [pending_append (set_Removed ch entry) parent]
           else []))
     @ (if EnableStarChannelLog cfg \<and> c = ''*''
        then [pending_append (clear_Removed ch entry) parent]
        else [])"

subsection \<open>The read path\<close>

text \<open>
  \<^verbatim>\<open>getChangeLog\<close>. \<open>GetRaw\<close> is the store's read and \<open>IsDocNotFoundError\<close> the
  test of the package \<^verbatim>\<open>base\<close>, both parameters. \<^verbatim>\<open>FilterAfter\<close> filters the
  log behind its receiver in place, so on a nil receiver it dereferences nil.
\<close>

definition getChangeLog ::
  "'log channels_pkg \<Rightarrow> ('err \<Rightarrow> bool) \<Rightarrow> (string \<Rightarrow> bytes option \<times> 'err option) \<Rightarrow>
   string \<Rightarrow> 64 word \<Rightarrow> panic + ('log option \<times> 'err option)" where
  "getChangeLog ch IsDocNotFoundError GetRaw channelName afterSeq =
     (case GetRaw (channelLogDocID channelName) of
        (raw, None) \<Rightarrow>
          (case decodeChannelLog ch raw of
             Inl p \<Rightarrow> Inl p
           | Inr (log, err) \<Rightarrow>
               (case err of
                  None \<Rightarrow>
                    (case log of
                       None \<Rightarrow> Inl NilPointerDereference
                     | Some l \<Rightarrow> Inr (Some (ChangeLog_FilterAfter ch l afterSeq), err))
                | Some e \<Rightarrow> Inr (log, err)))
      | (raw, Some err) \<Rightarrow>
          Inr (None, if IsDocNotFoundError err then None else Some err))"

subsection \<open>An instance of the collaborator\<close>

text \<open>
  A small instance of the package \<^verbatim>\<open>channels\<close>, for running the model on
  concrete inputs: a log is the list of its entries, an entry is encoded as one
  byte (the low byte of its \<^verbatim>\<open>Sequence\<close>), and truncation drops the oldest
  bytes down to the requested length.
\<close>

definition demo_channels :: "LogEntry list channels_pkg" where
  "demo_channels =
     \<lparr>Removed = 2,
      ChangeLog_empty = [],
      ChangeLog_Add = (\<lambda>l e. l @ [e]),
      ChangeLog_Encode = (\<lambda>l. map (\<lambda>e. ucast (Sequence e)) l),
      ChangeLog_FilterAfter = (\<lambda>l after. filter (\<lambda>e. after < Sequence e) l),
      LogEntry_Encode = (\<lambda>e parent. [ucast (Sequence e)]),
      TruncateEncodedChangeLog =
        (\<lambda>cur maxLength minLength.
           if int (length cur) > maxLength
           then (int (length cur) - maxLength, drop (nat (int (length cur) - maxLength)) cur)
           else (0, cur)),
      DecodeChangeLog =
        (\<lambda>b. Inr (Some (map (\<lambda>x. \<lparr>Sequence = ucast x, DocID = [], RevID = [], Flags = 0\<rparr>) b)))\<rparr>"

definition demo_entry :: "64 word \<Rightarrow> LogEntry list changeEntry" where
  "demo_entry n =
     \<lparr>logEntry = Some \<lparr>Sequence = n, DocID = ''doc'', RevID = ''1-a'', Flags = 0\<rparr>,
      parentRevID = [], replacementLog = None\<rparr>"

text \<open>An append-type pending write for a given document.\<close>

definition demo_change :: "64 word \<Rightarrow> string \<Rightarrow> LogEntry list changeEntry" where
  "demo_change n doc =
     pending_append \<lparr>Sequence = n, DocID = doc, RevID = ''1-a'', Flags = 0\<rparr> []"

definition demo_config :: "int \<Rightarrow> config" where
  "demo_config n =
     \<lparr>MaxChangeLogLength = n, AlwaysCompactChangeLog = False, EnableStarChannelLog = True\<rparr>"

subsection \<open>Notions used in the statements\<close>

text \<open>The log entries of a batch, and the bytes \<^verbatim>\<open>Encode\<close> writes for them in order.\<close>

definition entries_of :: "'log changeEntry list \<Rightarrow> LogEntry list" where
  "entries_of es = concat (map (\<lambda>e. case logEntry e of None \<Rightarrow> [] | Some le \<Rightarrow> [le]) es)"

definition encoded :: "'log channels_pkg \<Rightarrow> 'log changeEntry list \<Rightarrow> bytes" where
  "encoded ch es =
     concat (map (\<lambda>e. case logEntry e of None \<Rightarrow> [] | Some le \<Rightarrow> LogEntry_Encode ch le (parentRevID e)) es)"

text \<open>What the callback returns to the store, without the captured variables.\<close>

definition outcome :: "panic + ('s \<times> bytes \<times> WriteOptions \<times> 'err option) \<Rightarrow> panic + (bytes \<times> WriteOptions \<times> 'err option)" where
  "outcome res = (case res of Inl p \<Rightarrow> Inl p | Inr (s, v) \<Rightarrow> Inr v)"

text \<open>The captured variables as \<^verbatim>\<open>addToChangeLog_\<close> initialises them.\<close>

definition demo_captured :: "LogEntry list changeEntry list \<Rightarrow> LogEntry list captured" where
  "demo_captured es = \<lparr>entries = es, fullUpdate = False, removedCount = 0, fullUpdateAttempts = 0\<rparr>"




definition demo_AddRaw ::
  "string \<Rightarrow> int \<Rightarrow> bytes option \<Rightarrow> (string \<times> bytes) list \<Rightarrow>
   (bool \<times> unit option) \<times> (string \<times> bytes) list" where
  "demo_AddRaw key expiry v bucket =
     (if key \<in> fst ` set bucket then ((False, None), bucket)
      else ((True, None), bucket @ [(key, bytes_of v)]))"

subsection \<open>Notions used in the proofs about the sort\<close>

text \<open>
  What holds of a slice while it is sorted. \<^verbatim>\<open>swapped\<close> is the slice after a
  \<^verbatim>\<open>Swap\<close> that returns; \<^verbatim>\<open>perm_in a b\<close> relates a slice to the slices
  reached from it by such swaps at indices from \<^verbatim>\<open>a\<close> up to \<^verbatim>\<open>b\<close>
  excluded; \<^verbatim>\<open>sorted_in\<close> is the ascending order of the sequences on such a
  range; \<^verbatim>\<open>same_ties\<close> says that the entries of each sequence are in the
  same order in two slices; \<^verbatim>\<open>inv_left\<close> says that the entry before the
  range has no greater sequence than any entry of the range.
\<close>

definition swapped :: "'a list \<Rightarrow> nat \<Rightarrow> nat \<Rightarrow> 'a list" where
  "swapped xs i j = xs[i := xs ! j, j := xs ! i]"

inductive perm_in :: "nat \<Rightarrow> nat \<Rightarrow> 'a list \<Rightarrow> 'a list \<Rightarrow> bool" for a b xs where
  perm_in_refl: "perm_in a b xs xs"
| perm_in_step:
    "perm_in a b xs ys \<Longrightarrow> a \<le> i \<Longrightarrow> i < b \<Longrightarrow> a \<le> j \<Longrightarrow> j < b \<Longrightarrow> b \<le> length ys \<Longrightarrow>
     perm_in a b xs (swapped ys i j)"

definition sorted_in :: "'log changeEntry list \<Rightarrow> nat \<Rightarrow> nat \<Rightarrow> bool" where
  "sorted_in xs a b \<longleftrightarrow> (\<forall>i j. a \<le> i \<and> i < j \<and> j < b \<longrightarrow> seq_of (xs ! i) \<le> seq_of (xs ! j))"

definition same_ties :: "'log changeEntry list \<Rightarrow> 'log changeEntry list \<Rightarrow> bool" where
  "same_ties xs ys \<longleftrightarrow> (\<forall>c. filter (\<lambda>x. c = seq_of x) ys = filter (\<lambda>x. c = seq_of x) xs)"

definition inv_left :: "'log changeEntry list \<Rightarrow> nat \<Rightarrow> nat \<Rightarrow> bool" where
  "inv_left xs a b \<longleftrightarrow> (\<forall>k. 0 < a \<and> a \<le> k \<and> k < b \<longrightarrow> seq_of (xs ! (a - 1)) \<le> seq_of (xs ! k))"

text \<open>
  The heap of \<^verbatim>\<open>heapSort\<close>: node \<^verbatim>\<open>r\<close> of the heap is the entry at
  \<^verbatim>\<open>first + r\<close>, its children are the nodes \<^verbatim>\<open>2r + 1\<close> and \<^verbatim>\<open>2r + 2\<close>;
  \<^verbatim>\<open>heap_in\<close> is the order of the heap below \<^verbatim>\<open>hi\<close> for the parents from
  \<^verbatim>\<open>lo\<close> on, \<^verbatim>\<open>heap_except\<close> the same but for one node, whose children
  are then bounded by its parent; \<^verbatim>\<open>pop_inv\<close> is what holds when the
  entries from node \<^verbatim>\<open>i\<close> on have been popped.
\<close>

definition hkey :: "'log changeEntry list \<Rightarrow> nat \<Rightarrow> nat \<Rightarrow> 64 word" where
  "hkey xs first i = seq_of (xs ! (first + i))"

definition is_child :: "nat \<Rightarrow> nat \<Rightarrow> bool" where
  "is_child r c \<longleftrightarrow> c = 2 * r + 1 \<or> c = 2 * r + 2"

definition heap_in :: "'log changeEntry list \<Rightarrow> nat \<Rightarrow> nat \<Rightarrow> nat \<Rightarrow> bool" where
  "heap_in xs first lo hi \<longleftrightarrow>
     (\<forall>r c. lo \<le> r \<and> c < hi \<and> is_child r c \<longrightarrow> hkey xs first c \<le> hkey xs first r)"

definition heap_except :: "'log changeEntry list \<Rightarrow> nat \<Rightarrow> nat \<Rightarrow> nat \<Rightarrow> nat \<Rightarrow> bool" where
  "heap_except xs first lo hi root \<longleftrightarrow>
     (\<forall>r c. lo \<le> r \<and> r \<noteq> root \<and> c < hi \<and> is_child r c \<longrightarrow> hkey xs first c \<le> hkey xs first r) \<and>
     (\<forall>p c. lo \<le> p \<and> is_child p root \<and> c < hi \<and> is_child root c \<longrightarrow>
            hkey xs first c \<le> hkey xs first p)"

definition pop_inv :: "'log changeEntry list \<Rightarrow> nat \<Rightarrow> nat \<Rightarrow> nat \<Rightarrow> bool" where
  "pop_inv xs first n i \<longleftrightarrow>
     batch_ok xs \<and> first + n \<le> length xs \<and> i \<le> n \<and> heap_in xs first 0 i \<and>
     sorted_in xs (first + i) (first + n) \<and>
     (\<forall>p q. p < i \<and> i \<le> q \<and> q < n \<longrightarrow> hkey xs first p \<le> hkey xs first q)"

section \<open>Properties\<close>

subsection \<open>Auxiliary facts about the callback\<close>

lemmas demo_defs = demo_channels_def demo_entry_def demo_config_def demo_captured_def

lemma batch_ok_iff: "batch_ok es \<longleftrightarrow> (\<forall>e\<in>set es. logEntry e \<noteq> None)"
  by (simp add: batch_ok_def list_all_iff)

lemma sdiv_nonneg: "0 \<le> a \<Longrightarrow> 0 < b \<Longrightarrow> (a::int) sdiv b = a div b"
  by (simp add: signed_divide_int_def sgn_if)

lemma add_entries_ok:
  "\<forall>e\<in>set es. logEntry e \<noteq> None \<Longrightarrow>
   add_entries ch l es = Inr (foldl (ChangeLog_Add ch) l (entries_of es))"
  by (induction es arbitrary: l) (auto simp: entries_of_def)

lemma encode_entries_ok:
  "\<forall>e\<in>set es. logEntry e \<noteq> None \<Longrightarrow>
   encode_entries ch w es = Inr (w @ encoded ch es)"
  by (induction es arbitrary: w) (auto simp: encoded_def)

lemma callback_caseA:
  assumes wf: "\<forall>e\<in>set (entries s). logEntry e \<noteq> None"
    and max: "0 \<le> MaxChangeLogLength cfg"
    and a: "currentValue = [] \<or> MaxChangeLogLength cfg \<le> int (length (entries s))"
  shows "addToChangeLog_callback ch cfg s currentValue r =
    Inr (s\<lparr>fullUpdate := AlwaysCompactChangeLog cfg \<or>
                  (20000 < length currentValue \<and> r < int (length currentValue div 5000)),
            removedCount := 0,
            entries := drop (length (entries s) - nat (MaxChangeLogLength cfg)) (entries s)\<rparr>,
         ChangeLog_Encode ch (foldl (ChangeLog_Add ch) (ChangeLog_empty ch)
            (entries_of (drop (length (entries s) - nat (MaxChangeLogLength cfg)) (entries s)))),
         Raw, None :: 'err option)"
proof -
  let ?n = "MaxChangeLogLength cfg - int (length (entries s))"
  let ?k = "length (entries s) - nat (MaxChangeLogLength cfg)"
  have k: "nat (- ?n) = ?k" using max by linarith
  have wf': "\<forall>e\<in>set (drop ?k (entries s)). logEntry e \<noteq> None"
    using wf by (meson in_set_dropD)
  have d: "int (length currentValue) sdiv 5000 = int (length currentValue div 5000)"
    by (simp add: sdiv_nonneg zdiv_int)
  show ?thesis
  proof (cases "?n < 0")
    case True
    then show ?thesis using a max k wf'
      by (simp add: addToChangeLog_callback_def Let_def slice_from_def add_entries_ok
          encodeChannelLog_def d)
  next
    case False
    then have "?k = 0" by linarith
    then show ?thesis using a False wf
      by (simp add: addToChangeLog_callback_def Let_def add_entries_ok encodeChannelLog_def d)
  qed
qed

lemma callback_not_caseA:
  assumes wf: "\<forall>e\<in>set (entries s). logEntry e \<noteq> None"
    and na: "currentValue \<noteq> []" "int (length (entries s)) < MaxChangeLogLength cfg"
  shows "addToChangeLog_callback ch cfg s currentValue r =
    (let numToKeep = MaxChangeLogLength cfg - int (length (entries s));
         decision = (AlwaysCompactChangeLog cfg \<or>
                  (20000 < length currentValue \<and> r < int (length currentValue div 5000)));
         t = TruncateEncodedChangeLog ch currentValue numToKeep (numToKeep div 2)
     in Inr (s\<lparr>fullUpdate := decision,
               removedCount := (if decision then fst t else 0),
               fullUpdateAttempts := fullUpdateAttempts s + (if decision then 1 else 0)\<rparr>,
             (if decision \<and> 0 < fst t then snd t else currentValue) @ encoded ch (entries s),
             Raw, None :: 'err option))"
proof -
  have d: "int (length currentValue) sdiv 5000 = int (length currentValue div 5000)"
    by (simp add: sdiv_nonneg zdiv_int)
  have h: "(MaxChangeLogLength cfg - int (length (entries s))) sdiv 2 =
           (MaxChangeLogLength cfg - int (length (entries s))) div 2"
    using na by (simp add: sdiv_nonneg)
  show ?thesis using na wf
    by (simp add: addToChangeLog_callback_def Let_def append_encoded_def encode_entries_ok d h)
qed

lemma outcome_simps [simp]: "outcome (Inl p) = Inl p" "outcome (Inr (s, v)) = Inr v"
  by (simp_all add: outcome_def)

lemma callback_outcome_entries:
  assumes "entries s = entries s'"
  shows "outcome (addToChangeLog_callback ch cfg s currentValue r ::
                    panic + ('log captured \<times> bytes \<times> WriteOptions \<times> 'err option)) =
         outcome (addToChangeLog_callback ch cfg s' currentValue r)"
  using assms
  by (simp add: addToChangeLog_callback_def Let_def append_encoded_def split: sum.splits)

lemma callback_entries_after:
  assumes "addToChangeLog_callback ch cfg s currentValue r = Inr (s1, out1)"
  shows "entries s1 = entries s \<or>
         (MaxChangeLogLength cfg < int (length (entries s)) \<and> 0 \<le> MaxChangeLogLength cfg \<and>
          entries s1 = drop (length (entries s) - nat (MaxChangeLogLength cfg)) (entries s))"
proof -
  let ?n = "MaxChangeLogLength cfg - int (length (entries s))"
  show ?thesis
  proof (cases "(currentValue = [] \<or> ?n \<le> 0) \<and> ?n < 0")
    case True
    then have ok: "\<not> (- ?n < 0 \<or> int (length (entries s)) < - ?n)"
      using assms
      by (auto simp: addToChangeLog_callback_def Let_def slice_from_def split: sum.splits if_splits)
    then have m: "0 \<le> MaxChangeLogLength cfg" by linarith
    then have k: "nat (- ?n) = length (entries s) - nat (MaxChangeLogLength cfg)" by linarith
    have "entries s1 = drop (nat (- ?n)) (entries s)"
      using assms True ok
      by (auto simp: addToChangeLog_callback_def Let_def slice_from_def split: sum.splits if_splits)
    with k m True show ?thesis by simp
  next
    case False
    then have "entries s1 = entries s"
      using assms
      by (auto simp: addToChangeLog_callback_def Let_def append_encoded_def split: sum.splits if_splits)
    then show ?thesis by simp
  qed
qed

lemma callback_outcome_trimmed:
  assumes lt: "MaxChangeLogLength cfg < int (length (entries s))" and m: "0 \<le> MaxChangeLogLength cfg"
    and e: "entries s1 = drop (length (entries s) - nat (MaxChangeLogLength cfg)) (entries s)"
  shows "outcome (addToChangeLog_callback ch cfg s1 currentValue r ::
                    panic + ('log captured \<times> bytes \<times> WriteOptions \<times> 'err option)) =
         outcome (addToChangeLog_callback ch cfg s currentValue r)"
proof -
  let ?n = "MaxChangeLogLength cfg - int (length (entries s))"
  have k: "nat (- ?n) = length (entries s) - nat (MaxChangeLogLength cfg)" using m by linarith
  have l1: "int (length (entries s1)) = MaxChangeLogLength cfg" using e lt m by simp
  have a: "outcome (addToChangeLog_callback ch cfg s currentValue r) =
        (case add_entries ch (ChangeLog_empty ch) (entries s1) of Inl p \<Rightarrow> Inl p
         | Inr l \<Rightarrow> Inr (ChangeLog_Encode ch l, Raw, None :: 'err option))"
    using lt m k e
    by (simp add: addToChangeLog_callback_def Let_def slice_from_def encodeChannelLog_def
        split: sum.splits)
  have b: "outcome (addToChangeLog_callback ch cfg s1 currentValue r) =
        (case add_entries ch (ChangeLog_empty ch) (entries s1) of Inl p \<Rightarrow> Inl p
         | Inr l \<Rightarrow> Inr (ChangeLog_Encode ch l, Raw, None :: 'err option))"
    using l1
    by (simp add: addToChangeLog_callback_def Let_def encodeChannelLog_def split: sum.splits)
  show ?thesis using a b by simp
qed

lemma callback_outcome_draw:
  assumes "AlwaysCompactChangeLog cfg \<or> length currentValue \<le> 20000 \<or>
           MaxChangeLogLength cfg \<le> int (length (entries s))"
  shows "outcome (addToChangeLog_callback ch cfg s currentValue r ::
                    panic + ('log captured \<times> bytes \<times> WriteOptions \<times> 'err option)) =
         outcome (addToChangeLog_callback ch cfg s currentValue r')"
  using assms
  by (auto simp: addToChangeLog_callback_def Let_def append_encoded_def split: sum.splits)

text \<open>With a negative \<^verbatim>\<open>MaxChangeLogLength\<close> every invocation panics at the
  slice expression: the hypothesis of a maximum that is not negative, below,
  excludes no configuration under which the writer runs.\<close>

lemma callback_negative_max:
  assumes "MaxChangeLogLength cfg < 0"
  shows "addToChangeLog_callback ch cfg s currentValue r = Inl SliceBoundsOutOfRange"
  using assms by (simp add: addToChangeLog_callback_def Let_def slice_from_def)

lemma callback_returns:
  assumes ok: "batch_ok (entries s)" and max: "0 \<le> MaxChangeLogLength cfg"
  shows "\<exists>s' out. addToChangeLog_callback ch cfg s currentValue r =
             Inr (s', out, Raw, None :: 'err option)"
proof -
  have wf: "\<forall>e\<in>set (entries s). logEntry e \<noteq> None" using ok by (simp add: batch_ok_iff)
  show ?thesis
  proof (cases "currentValue = [] \<or> MaxChangeLogLength cfg \<le> int (length (entries s))")
    case True
    show ?thesis
      unfolding callback_caseA [OF wf max True, of ch r, where ?'err = 'err] by auto
  next
    case False
    then have na: "currentValue \<noteq> []" "int (length (entries s)) < MaxChangeLogLength cfg"
      by auto
    show ?thesis
      unfolding callback_not_caseA [OF wf na, of ch r, where ?'err = 'err] Let_def by auto
  qed
qed

subsection \<open>Case A: a new log replaces the stored one\<close>

text \<open>
  Claim C1. The batch carries log entries and \<^verbatim>\<open>MaxChangeLogLength\<close> is not
  negative. When the stored bytes are empty or
  \<open>numToKeep = MaxChangeLogLength - len(batch) \<le> 0\<close>, the callback returns the
  encoding of a new log to which only entries of the batch were added: the
  value does not mention the stored bytes. When \<open>numToKeep < 0\<close> the first
  \<open>- numToKeep\<close> entries of the batch are dropped first (and the captured
  batch is the kept part afterwards); exactly \<^verbatim>\<open>MaxChangeLogLength\<close> remain, and in
  a batch sorted by sequence no dropped entry is newer than a kept one. With a
  maximum of 5 and a batch of 7 the last 5 entries are kept.
\<close>

theorem caseA_replaces_log:
  assumes ok: "batch_ok (entries s)" and max: "0 \<le> MaxChangeLogLength cfg"
    and a: "currentValue = [] \<or> MaxChangeLogLength cfg - int (length (entries s)) \<le> 0"
  shows "let numToKeep = MaxChangeLogLength cfg - int (length (entries s));
             kept = (if numToKeep < 0 then drop (nat (- numToKeep)) (entries s) else entries s)
         in (\<exists>s'. addToChangeLog_callback ch cfg s currentValue r =
                 Inr (s', ChangeLog_Encode ch
                            (foldl (ChangeLog_Add ch) (ChangeLog_empty ch) (entries_of kept)),
                      Raw, None :: 'err option) \<and>
               entries s' = kept) \<and>
            (numToKeep < 0 \<longrightarrow> int (length kept) = MaxChangeLogLength cfg) \<and>
            (sorted (map seq_of (entries s)) \<longrightarrow>
               (\<forall>x\<in>set (take (length (entries s) - length kept) (entries s)).
                  \<forall>y\<in>set kept. seq_of x \<le> seq_of y)) \<and>
            (MaxChangeLogLength cfg = 5 \<and> length (entries s) = 7 \<longrightarrow>
               kept = drop 2 (entries s) \<and> length kept = 5)"
proof -
  let ?n = "MaxChangeLogLength cfg - int (length (entries s))"
  let ?k = "length (entries s) - nat (MaxChangeLogLength cfg)"
  let ?kept = "if ?n < 0 then drop (nat (- ?n)) (entries s) else entries s"
  have k: "nat (- ?n) = ?k" using max by linarith
  have kept: "?kept = drop ?k (entries s)"
  proof (cases "?n < 0")
    case True
    then show ?thesis using k by simp
  next
    case False
    then have "?k = 0" by linarith
    with False show ?thesis by simp
  qed
  have wf: "\<forall>e\<in>set (entries s). logEntry e \<noteq> None" using ok by (simp add: batch_ok_iff)
  have a': "currentValue = [] \<or> MaxChangeLogLength cfg \<le> int (length (entries s))"
    using a by linarith
  have 1: "\<exists>s'. addToChangeLog_callback ch cfg s currentValue r =
                 Inr (s', ChangeLog_Encode ch
                            (foldl (ChangeLog_Add ch) (ChangeLog_empty ch) (entries_of ?kept)),
                      Raw, None :: 'err option) \<and>
               entries s' = ?kept"
    unfolding kept using callback_caseA [OF wf max a', of ch r, where ?'err = 'err] by simp
  have 2: "?n < 0 \<longrightarrow> int (length ?kept) = MaxChangeLogLength cfg"
    unfolding kept using max by auto
  have len: "length (entries s) - length ?kept = ?k" unfolding kept by simp
  have 3: "sorted (map seq_of (entries s)) \<longrightarrow>
               (\<forall>x\<in>set (take (length (entries s) - length ?kept) (entries s)).
                  \<forall>y\<in>set ?kept. seq_of x \<le> seq_of y)"
  proof
    assume srt: "sorted (map seq_of (entries s))"
    have "sorted (map seq_of (take ?k (entries s) @ drop ?k (entries s)))"
      using srt by simp
    then have "\<forall>x\<in>set (take ?k (entries s)). \<forall>y\<in>set (drop ?k (entries s)). seq_of x \<le> seq_of y"
      unfolding map_append sorted_append by auto
    then show "\<forall>x\<in>set (take (length (entries s) - length ?kept) (entries s)).
                  \<forall>y\<in>set ?kept. seq_of x \<le> seq_of y"
      unfolding len unfolding kept .
  qed
  have 4: "MaxChangeLogLength cfg = 5 \<and> length (entries s) = 7 \<longrightarrow>
               ?kept = drop 2 (entries s) \<and> length ?kept = 5"
    by auto
  show ?thesis unfolding Let_def using 1 2 3 4 by blast
qed

text \<open>A batch of seven with the maximum 5, over two stored bytes: the entries
  3 to 7 are encoded and the stored bytes are gone.\<close>

theorem caseA_replaces_log_witness:
  "\<exists>s'. addToChangeLog_callback demo_channels (demo_config 5)
          (demo_captured [demo_entry 1, demo_entry 2, demo_entry 3, demo_entry 4,
                          demo_entry 5, demo_entry 6, demo_entry 7]) [9, 9] 0 =
        Inr (s', [3, 4, 5, 6, 7], Raw, None) \<and>
        entries s' = [demo_entry 3, demo_entry 4, demo_entry 5, demo_entry 6, demo_entry 7]"
  using caseA_replaces_log [of "demo_captured [demo_entry 1, demo_entry 2, demo_entry 3,
            demo_entry 4, demo_entry 5, demo_entry 6, demo_entry 7]" "demo_config 5" "[9, 9]"
          demo_channels 0]
  by (simp add: demo_defs batch_ok_def entries_of_def Let_def)

subsection \<open>The decision to compact\<close>

text \<open>
  Claim C3. For stored bytes of length \<open>L\<close> and the draw \<open>r\<close>, the callback
  returns and leaves in \<^verbatim>\<open>fullUpdate\<close> the value
  \<open>AlwaysCompactChangeLog \<or> (L > 20000 \<and> r < L div 5000)\<close>, the division being
  the integer one. So for \<open>L \<le> 20000\<close> without \<^verbatim>\<open>AlwaysCompactChangeLog\<close> the
  decision is false whatever the draw, and from 500000 bytes on it is true for
  every draw below 100.
\<close>

theorem fullUpdate_decision:
  assumes ok: "batch_ok (entries s)" and max: "0 \<le> MaxChangeLogLength cfg"
  shows "\<exists>s' out. addToChangeLog_callback ch cfg s currentValue r =
             Inr (s', out, Raw, None :: 'err option) \<and>
           fullUpdate s' =
             (AlwaysCompactChangeLog cfg \<or>
              (20000 < length currentValue \<and> r < int (length currentValue div 5000))) \<and>
           (length currentValue \<le> 20000 \<and> \<not> AlwaysCompactChangeLog cfg \<longrightarrow> \<not> fullUpdate s') \<and>
           (500000 \<le> length currentValue \<and> r < 100 \<longrightarrow> fullUpdate s')"
proof -
  have wf: "\<forall>e\<in>set (entries s). logEntry e \<noteq> None" using ok by (simp add: batch_ok_iff)
  show ?thesis
  proof (cases "currentValue = [] \<or> MaxChangeLogLength cfg \<le> int (length (entries s))")
    case True
    show ?thesis
      unfolding callback_caseA [OF wf max True, of ch r, where ?'err = 'err] by auto
  next
    case False
    then have na: "currentValue \<noteq> []" "int (length (entries s)) < MaxChangeLogLength cfg"
      by auto
    show ?thesis
      unfolding callback_not_caseA [OF wf na, of ch r, where ?'err = 'err] Let_def by auto
  qed
qed

theorem fullUpdate_decision_witness:
  "\<exists>s' out. addToChangeLog_callback demo_channels (demo_config 5)
               (demo_captured [demo_entry 1]) [7, 8] 0 = Inr (s', out, Raw, None :: unit option) \<and>
            \<not> fullUpdate s'"
  using fullUpdate_decision [of "demo_captured [demo_entry 1]" "demo_config 5" demo_channels
      "[7, 8]" 0, where ?'err = unit]
  by (simp add: demo_defs batch_ok_def)

subsection \<open>Cases B and C: truncate, or append\<close>

text \<open>
  Claim C4. Case A does not apply: the stored bytes are not empty and
  \<open>numToKeep > 0\<close>. When the decision is true the stored log is truncated with
  the arguments \<open>numToKeep\<close> and \<open>numToKeep div 2\<close>, which gives
  \<^verbatim>\<open>removedCount\<close>; when it is false \<^verbatim>\<open>removedCount\<close> stays 0. With
  \<open>removedCount > 0\<close> the result is the truncated bytes followed by the encoded
  batch; otherwise it is the stored bytes, unchanged, followed by the encoded
  batch.
\<close>

theorem compaction_or_append:
  assumes ok: "batch_ok (entries s)" and ne: "currentValue \<noteq> []"
    and keep: "0 < MaxChangeLogLength cfg - int (length (entries s))"
  shows "let numToKeep = MaxChangeLogLength cfg - int (length (entries s));
             decision = (AlwaysCompactChangeLog cfg \<or>
                  (20000 < length currentValue \<and> r < int (length currentValue div 5000)));
             t = TruncateEncodedChangeLog ch currentValue numToKeep (numToKeep div 2);
             removed = (if decision then fst t else 0)
         in \<exists>s'. addToChangeLog_callback ch cfg s currentValue r =
                 Inr (s', (if 0 < removed then snd t @ encoded ch (entries s)
                           else currentValue @ encoded ch (entries s)),
                      Raw, None :: 'err option) \<and>
               removedCount s' = removed \<and> entries s' = entries s"
proof -
  have wf: "\<forall>e\<in>set (entries s). logEntry e \<noteq> None" using ok by (simp add: batch_ok_iff)
  have na: "currentValue \<noteq> []" "int (length (entries s)) < MaxChangeLogLength cfg"
    using ne keep by auto
  show ?thesis
    unfolding callback_not_caseA [OF wf na, of ch r, where ?'err = 'err] Let_def by auto
qed

text \<open>Three stored bytes, one new entry and a maximum of 3: appended without
  compaction, truncated by one entry with \<^verbatim>\<open>AlwaysCompactChangeLog\<close>.\<close>

theorem compaction_or_append_witness:
  "(\<exists>s'. addToChangeLog_callback demo_channels (demo_config 3)
            (demo_captured [demo_entry 8]) [5, 6, 7] 0 =
          Inr (s', [5, 6, 7, 8], Raw, None :: unit option) \<and> removedCount s' = 0) \<and>
   (\<exists>s'. addToChangeLog_callback demo_channels ((demo_config 3)\<lparr>AlwaysCompactChangeLog := True\<rparr>)
            (demo_captured [demo_entry 8]) [5, 6, 7] 0 =
          Inr (s', [6, 7, 8], Raw, None :: unit option) \<and> removedCount s' = 1)"
  using compaction_or_append [of "demo_captured [demo_entry 8]" "[5, 6, 7]" "demo_config 3"
      0 demo_channels, where ?'err = unit]
    compaction_or_append [of "demo_captured [demo_entry 8]" "[5, 6, 7]"
      "(demo_config 3)\<lparr>AlwaysCompactChangeLog := True\<rparr>" 0 demo_channels, where ?'err = unit]
  by (auto simp add: demo_defs batch_ok_def encoded_def Let_def)

subsection \<open>The callback and its captured variables\<close>

text \<open>
  Claim C8, as the code has it. The callback assigns to the captured variables
  and consults the random source, so it is not free of effects; what holds is
  that the value it returns to the store is the same however often it ran
  before. After an invocation that returned, a further invocation (on any
  stored bytes and draw) returns what it would have returned from the
  variables as they were at first; the value does not depend on what
  \<^verbatim>\<open>fullUpdate\<close>, \<^verbatim>\<open>removedCount\<close> and \<^verbatim>\<open>fullUpdateAttempts\<close> held before; and
  it does not depend on the draw when \<^verbatim>\<open>AlwaysCompactChangeLog\<close> is set, when
  the stored bytes are at most 20000 long, or when the batch fills the log.
\<close>

theorem callback_reinvocation:
  assumes first: "addToChangeLog_callback ch cfg s currentValue r =
                    Inr (s1, out1 :: bytes \<times> WriteOptions \<times> 'err option)"
  shows "outcome (addToChangeLog_callback ch cfg s1 currentValue2 r2 ::
                    panic + ('log captured \<times> bytes \<times> WriteOptions \<times> 'err option)) =
           outcome (addToChangeLog_callback ch cfg s currentValue2 r2) \<and>
         outcome (addToChangeLog_callback ch cfg
                    (s\<lparr>fullUpdate := f, removedCount := c, fullUpdateAttempts := a\<rparr>)
                    currentValue r) = Inr out1 \<and>
         (AlwaysCompactChangeLog cfg \<or> length currentValue \<le> 20000 \<or>
          MaxChangeLogLength cfg \<le> int (length (entries s)) \<longrightarrow>
            outcome (addToChangeLog_callback ch cfg s currentValue r') = Inr out1)"
proof (intro conjI impI)
  have o: "outcome (addToChangeLog_callback ch cfg s currentValue r) = Inr out1"
    using first by simp
  show "outcome (addToChangeLog_callback ch cfg s1 currentValue2 r2 ::
                    panic + ('log captured \<times> bytes \<times> WriteOptions \<times> 'err option)) =
           outcome (addToChangeLog_callback ch cfg s currentValue2 r2)"
    using callback_entries_after [OF first]
    by (auto intro: callback_outcome_entries callback_outcome_trimmed)
  show "outcome (addToChangeLog_callback ch cfg
                    (s\<lparr>fullUpdate := f, removedCount := c, fullUpdateAttempts := a\<rparr>)
                    currentValue r) = Inr out1"
    using callback_outcome_entries [of "s\<lparr>fullUpdate := f, removedCount := c,
        fullUpdateAttempts := a\<rparr>" s ch cfg currentValue r, where ?'err = 'err] o
    by simp
  assume "AlwaysCompactChangeLog cfg \<or> length currentValue \<le> 20000 \<or>
          MaxChangeLogLength cfg \<le> int (length (entries s))"
  from callback_outcome_draw [OF this, of ch r' r, where ?'err = 'err] o
  show "outcome (addToChangeLog_callback ch cfg s currentValue r') = Inr out1"
    by simp
qed

text \<open>After a first invocation trimmed the batch of two to its last entry, the
  next invocation returns what it returns from the untrimmed batch.\<close>

theorem callback_reinvocation_witness:
  "outcome (addToChangeLog_callback demo_channels (demo_config 1)
              (demo_captured [demo_entry 2]) [4, 5, 6] 50 ::
              panic + (LogEntry list captured \<times> bytes \<times> WriteOptions \<times> unit option)) =
   outcome (addToChangeLog_callback demo_channels (demo_config 1)
              (demo_captured [demo_entry 1, demo_entry 2]) [4, 5, 6] 50)"
  using callback_reinvocation [of demo_channels "demo_config 1"
      "demo_captured [demo_entry 1, demo_entry 2]" "[]" 0
      "\<lparr>entries = [demo_entry 2], fullUpdate = False, removedCount = 0, fullUpdateAttempts = 0\<rparr>"
      "([2], Raw, None :: unit option)" "[4, 5, 6]" 50]
  by (simp add: demo_defs addToChangeLog_callback_def slice_from_def encodeChannelLog_def)

text \<open>
  Claim C8, as stated, fails. An invocation with a maximum of 1 and a batch
  of two leaves the captured batch with one entry; an invocation that compacts
  leaves \<^verbatim>\<open>fullUpdate\<close>, \<^verbatim>\<open>removedCount\<close> and \<^verbatim>\<open>fullUpdateAttempts\<close> changed; and
  over 20001 stored bytes, the same batch gives other bytes for the draw 3
  (the log is truncated) than for the draw 4 (it is not).
\<close>

theorem callback_mutates_captured:
  "addToChangeLog_callback demo_channels (demo_config 1)
     \<lparr>entries = [demo_entry 1, demo_entry 2], fullUpdate = False, removedCount = 0,
      fullUpdateAttempts = 0\<rparr> [] 0 =
   Inr (\<lparr>entries = [demo_entry 2], fullUpdate = False, removedCount = 0,
         fullUpdateAttempts = 0\<rparr>, [2], Raw, None :: unit option) \<and>
   [demo_entry 2] \<noteq> [demo_entry 1, demo_entry 2] \<and>
   addToChangeLog_callback demo_channels ((demo_config 3)\<lparr>AlwaysCompactChangeLog := True\<rparr>)
     \<lparr>entries = [demo_entry 8], fullUpdate = False, removedCount = 0,
      fullUpdateAttempts = 0\<rparr> [5, 6, 7] 0 =
   Inr (\<lparr>entries = [demo_entry 8], fullUpdate = True, removedCount = 1,
         fullUpdateAttempts = 1\<rparr>, [6, 7, 8], Raw, None :: unit option) \<and>
   outcome (addToChangeLog_callback demo_channels (demo_config 20000)
              (demo_captured [demo_entry 8]) (replicate 20001 0) 3) =
     Inr (replicate 19999 0 @ [8], Raw, None :: unit option) \<and>
   outcome (addToChangeLog_callback demo_channels (demo_config 20000)
              (demo_captured [demo_entry 8]) (replicate 20001 0) 4) =
     Inr (replicate 20001 0 @ [8], Raw, None :: unit option)"
  by (simp add: addToChangeLog_callback_def demo_defs append_encoded_def slice_from_def
      encodeChannelLog_def Let_def signed_divide_int_def)

subsection \<open>The callback never returns an error\<close>

text \<open>
  Claim C10. Whatever the callback returns, its error is nil (and its options
  are \<^verbatim>\<open>Raw\<close>); on a batch that carries log entries, with a
  \<^verbatim>\<open>MaxChangeLogLength\<close> that is not negative, it does return. The commit path
  returns what the store's \<^verbatim>\<open>WriteUpdate\<close> returns for this callback, and
  nothing else.
\<close>

theorem callback_returns_nil_error:
  "(\<forall>s' out opts err. addToChangeLog_callback ch cfg s currentValue r = Inr (s', out, opts, err)
       \<longrightarrow> err = (None :: 'err option) \<and> opts = Raw) \<and>
   (batch_ok (entries s) \<and> 0 \<le> MaxChangeLogLength cfg \<longrightarrow>
      (\<exists>s' out. addToChangeLog_callback ch cfg s currentValue r =
          Inr (s', out, Raw, None :: 'err option))) \<and>
   addToChangeLog_' WriteUpdate ch cfg channelName batch =
     WriteUpdate (channelLogDocID channelName) 0
       (addToChangeLog_callback ch cfg :: 'log captured \<Rightarrow> bytes \<Rightarrow> int \<Rightarrow>
           panic + ('log captured \<times> bytes \<times> WriteOptions \<times> 'err option))
       \<lparr>entries = batch, fullUpdate = False, removedCount = 0, fullUpdateAttempts = 0\<rparr>"
proof (intro conjI)
  show "\<forall>s' out opts err. addToChangeLog_callback ch cfg s currentValue r = Inr (s', out, opts, err)
       \<longrightarrow> err = (None :: 'err option) \<and> opts = Raw"
    by (auto simp: addToChangeLog_callback_def Let_def append_encoded_def
        split: sum.splits if_splits)
  show "batch_ok (entries s) \<and> 0 \<le> MaxChangeLogLength cfg \<longrightarrow>
      (\<exists>s' out. addToChangeLog_callback ch cfg s currentValue r =
          Inr (s', out, Raw, None :: 'err option))"
    using callback_returns by blast
  show "addToChangeLog_' WriteUpdate ch cfg channelName batch =
     WriteUpdate (channelLogDocID channelName) 0
       (addToChangeLog_callback ch cfg :: 'log captured \<Rightarrow> bytes \<Rightarrow> int \<Rightarrow>
           panic + ('log captured \<times> bytes \<times> WriteOptions \<times> 'err option))
       \<lparr>entries = batch, fullUpdate = False, removedCount = 0, fullUpdateAttempts = 0\<rparr>"
    by (simp add: addToChangeLog_'_def)
qed

theorem callback_returns_nil_error_witness:
  "\<exists>s' out. addToChangeLog_callback demo_channels (demo_config 5)
               (demo_captured [demo_entry 1]) [] 0 = Inr (s', out, Raw, None :: unit option)"
  using callback_returns_nil_error [of demo_channels "demo_config 5"
      "demo_captured [demo_entry 1]" "[]" 0, where ?'err = unit, THEN conjunct2, THEN conjunct1]
  by (simp add: demo_defs batch_ok_def)

subsection \<open>The drain of the mailbox\<close>






lemma Less_total:
  assumes "batch_ok batch" "i < length batch" "j < length batch"
  shows "Less batch i j = Inr (seq_of (batch ! i) < seq_of (batch ! j))"
proof -
  have "logEntry (batch ! i) \<noteq> None" "logEntry (batch ! j) \<noteq> None"
    using assms by (auto simp: batch_ok_iff)
  then show ?thesis using assms(2,3)
    by (auto simp: Less_def seq_of_def)
qed



subsection \<open>Sorting\<close>

subsubsection \<open>Swaps within a range\<close>

text \<open>On a batch whose entries carry log entries and at indices within the
  slice, \<^verbatim>\<open>data.Swap\<close> exchanges two entries and \<^verbatim>\<open>data.Less\<close> compares
  their sequences.\<close>

lemma data_Swap_swapped:
  "i < length data \<Longrightarrow> j < length data \<Longrightarrow> data_Swap data i j = swapped data i j"
  by (simp add: data_Swap_def Swap_def swapped_def)

lemma methods_return:
  assumes "batch_ok data" "i < length data" "j < length data"
  shows "Less data i j = Inr (data_Less data i j) \<and> Swap data i j = Inr (data_Swap data i j)"
  using assms by (simp add: data_Less_def data_Swap_def Swap_def Less_total)

lemma length_swapped [simp]: "length (swapped xs i j) = length xs"
  by (simp add: swapped_def)

lemma nth_swapped:
  "i < length xs \<Longrightarrow> j < length xs \<Longrightarrow> k < length xs \<Longrightarrow>
   swapped xs i j ! k = (if k = j then xs ! i else if k = i then xs ! j else xs ! k)"
  by (simp add: swapped_def nth_list_update)

lemma mset_swapped: "i < length xs \<Longrightarrow> j < length xs \<Longrightarrow> mset (swapped xs i j) = mset xs"
  by (simp add: swapped_def mset_swap)

lemma data_Less_key:
  "batch_ok data \<Longrightarrow> i < length data \<Longrightarrow> j < length data \<Longrightarrow>
   data_Less data i j \<longleftrightarrow> seq_of (data ! i) < seq_of (data ! j)"
  by (simp add: data_Less_def Less_total)

lemma perm_in_length: "perm_in a b xs ys \<Longrightarrow> length ys = length xs"
  by (induction rule: perm_in.induct) auto

lemma perm_in_mset: "perm_in a b xs ys \<Longrightarrow> mset ys = mset xs"
  by (induction rule: perm_in.induct) (auto simp: mset_swapped)

lemma perm_in_outside:
  "perm_in a b xs ys \<Longrightarrow> k < a \<or> b \<le> k \<Longrightarrow> ys ! k = xs ! k"
  by (induction rule: perm_in.induct) (auto simp: swapped_def)

lemma perm_in_trans:
  "perm_in a b ys zs \<Longrightarrow> perm_in a b xs ys \<Longrightarrow> perm_in a b xs zs"
  by (induction rule: perm_in.induct) (auto intro: perm_in.intros)

lemma perm_in_mono:
  "perm_in a b xs ys \<Longrightarrow> a' \<le> a \<Longrightarrow> b \<le> b' \<Longrightarrow> b' \<le> length xs \<Longrightarrow> perm_in a' b' xs ys"
proof (induction rule: perm_in.induct)
  case perm_in_refl
  show ?case by (rule perm_in.perm_in_refl)
next
  case (perm_in_step ys i j)
  then have "perm_in a' b' xs ys" by simp
  moreover have "length ys = length xs" using perm_in_step.hyps(1) by (rule perm_in_length)
  ultimately show ?case using perm_in_step by (intro perm_in.perm_in_step) auto
qed

lemma perm_in_swap:
  "a \<le> i \<Longrightarrow> i < b \<Longrightarrow> a \<le> j \<Longrightarrow> j < b \<Longrightarrow> b \<le> length xs \<Longrightarrow>
   perm_in a b xs (data_Swap xs i j)"
  by (simp add: data_Swap_swapped perm_in.intros)

lemma perm_in_batch_ok: "perm_in a b xs ys \<Longrightarrow> batch_ok xs \<Longrightarrow> batch_ok ys"
  using perm_in_mset [of a b xs ys] mset_eq_setD [of ys xs] by (auto simp: batch_ok_iff)

lemma swapped_range_image:
  assumes "a \<le> i" "i < b" "a \<le> j" "j < b" "b \<le> length ys"
  shows "(\<lambda>k. swapped ys i j ! k) ` {a..<b} = (\<lambda>k. ys ! k) ` {a..<b}"
proof (intro set_eqI iffI)
  fix x assume "x \<in> (\<lambda>k. swapped ys i j ! k) ` {a..<b}"
  then obtain k where k: "a \<le> k" "k < b" "x = swapped ys i j ! k" by auto
  then have "x = ys ! (if k = j then i else if k = i then j else k)"
    using assms by (simp add: nth_swapped)
  moreover have "(if k = j then i else if k = i then j else k) \<in> {a..<b}"
    using assms k by auto
  ultimately show "x \<in> (\<lambda>k. ys ! k) ` {a..<b}" by blast
next
  fix x assume "x \<in> (\<lambda>k. ys ! k) ` {a..<b}"
  then obtain k where k: "a \<le> k" "k < b" "x = ys ! k" by auto
  then have "x = swapped ys i j ! (if k = j then i else if k = i then j else k)"
    using assms by (auto simp: nth_swapped)
  moreover have "(if k = j then i else if k = i then j else k) \<in> {a..<b}"
    using assms k by auto
  ultimately show "x \<in> (\<lambda>k. swapped ys i j ! k) ` {a..<b}" by blast
qed

lemma perm_in_range:
  "perm_in a b xs ys \<Longrightarrow> (\<lambda>k. ys ! k) ` {a..<b} = (\<lambda>k. xs ! k) ` {a..<b}"
  by (induction rule: perm_in.induct) (auto simp: swapped_range_image)

lemma perm_in_range_nth:
  assumes "perm_in a b xs ys" "a \<le> k" "k < b"
  shows "\<exists>k'. a \<le> k' \<and> k' < b \<and> ys ! k = xs ! k'"
proof -
  have "ys ! k \<in> (\<lambda>k. ys ! k) ` {a..<b}" using assms(2,3) by auto
  then have "ys ! k \<in> (\<lambda>k. xs ! k) ` {a..<b}" using perm_in_range [OF assms(1)] by simp
  then show ?thesis by auto
qed

subsubsection \<open>The insertion sort\<close>

text \<open>\<^verbatim>\<open>insertionSort\<close> sorts its range, moves nothing outside it, and keeps
  the entries of equal sequence in their order.\<close>

lemma sorted_inI:
  "(\<And>i j. a \<le> i \<Longrightarrow> i < j \<Longrightarrow> j < b \<Longrightarrow> seq_of (xs ! i) \<le> seq_of (xs ! j)) \<Longrightarrow> sorted_in xs a b"
  by (simp add: sorted_in_def)

lemma sorted_inD:
  "sorted_in xs a b \<Longrightarrow> a \<le> i \<Longrightarrow> i < j \<Longrightarrow> j < b \<Longrightarrow> seq_of (xs ! i) \<le> seq_of (xs ! j)"
  by (simp add: sorted_in_def)

lemma insertionSort_j_correct:
  assumes "batch_ok xs" "t < length xs" "a \<le> j" "j \<le> t"
    and "\<forall>p q. a \<le> p \<and> p < q \<and> q \<le> t \<and> p \<noteq> j \<and> q \<noteq> j \<longrightarrow> seq_of (xs ! p) \<le> seq_of (xs ! q)"
    and "\<forall>q. j < q \<and> q \<le> t \<longrightarrow> seq_of (xs ! j) \<le> seq_of (xs ! q)"
  shows "perm_in a (t + 1) xs (insertionSort_j xs a j) \<and> sorted_in (insertionSort_j xs a j) a (t + 1)"
  using assms
proof (induction xs a j rule: insertionSort_j.induct)
  case (1 data a j)
  note ok = \<open>batch_ok data\<close> and t = \<open>t < length data\<close> and aj = \<open>a \<le> j\<close> and jt = \<open>j \<le> t\<close>
  note A = 1(6) [rule_format] and B = 1(7) [rule_format]
  show ?case
  proof (cases "a < j \<and> data_Less data j (j - 1)")
    case True
    then have lt: "seq_of (data ! j) < seq_of (data ! (j - 1))"
      using ok t jt by (simp add: data_Less_key)
    let ?ys = "swapped data j (j - 1)"
    have sw: "data_Swap data j (j - 1) = ?ys" using t jt by (simp add: data_Swap_swapped)
    have res: "insertionSort_j data a j = insertionSort_j ?ys a (j - 1)"
      using True sw by (subst insertionSort_j.simps) simp
    have p0: "perm_in a (t + 1) data ?ys"
      using True t jt by (intro perm_in_step perm_in_refl) auto
    have ok': "batch_ok ?ys" using p0 ok by (rule perm_in_batch_ok)
    have nth: "?ys ! k = (if k = j - 1 then data ! j else if k = j then data ! (j - 1) else data ! k)"
      if "k \<le> t" for k
      using that t jt True by (auto simp: nth_swapped)
    have A': "\<forall>p q. a \<le> p \<and> p < q \<and> q \<le> t \<and> p \<noteq> j - 1 \<and> q \<noteq> j - 1 \<longrightarrow>
                seq_of (?ys ! p) \<le> seq_of (?ys ! q)"
    proof (intro allI impI)
      fix p q assume h: "a \<le> p \<and> p < q \<and> q \<le> t \<and> p \<noteq> j - 1 \<and> q \<noteq> j - 1"
      then have pq: "p \<le> t" "q \<le> t" by auto
      consider "q = j" | "p = j" | "p \<noteq> j" "q \<noteq> j" by blast
      then show "seq_of (?ys ! p) \<le> seq_of (?ys ! q)"
      proof cases
        case 1
        then have "p < j - 1" using h by auto
        then have "seq_of (data ! p) \<le> seq_of (data ! (j - 1))"
          using h True jt by (intro A) auto
        then show ?thesis using 1 h True jt by (simp add: nth pq del: One_nat_def)
      next
        case 2
        then have "seq_of (data ! (j - 1)) \<le> seq_of (data ! q)"
          using h True jt by (intro A) auto
        then show ?thesis using 2 h True jt by (simp add: nth pq del: One_nat_def)
      next
        case 3
        then have "seq_of (data ! p) \<le> seq_of (data ! q)" using h by (intro A) auto
        then show ?thesis using 3 h by (simp add: nth pq del: One_nat_def)
      qed
    qed
    have B': "\<forall>q. j - 1 < q \<and> q \<le> t \<longrightarrow> seq_of (?ys ! (j - 1)) \<le> seq_of (?ys ! q)"
    proof (intro allI impI)
      fix q assume h: "j - 1 < q \<and> q \<le> t"
      show "seq_of (?ys ! (j - 1)) \<le> seq_of (?ys ! q)"
      proof (cases "q = j")
        case True
        then show ?thesis using lt h jt by (simp add: nth del: One_nat_def)
      next
        case False
        then have "seq_of (data ! j) \<le> seq_of (data ! q)" using h by (intro B) auto
        then show ?thesis using False h jt \<open>a < j \<and> data_Less data j (j - 1)\<close> by (simp add: nth del: One_nat_def)
      qed
    qed
    have "perm_in a (t + 1) ?ys (insertionSort_j ?ys a (j - 1)) \<and>
          sorted_in (insertionSort_j ?ys a (j - 1)) a (t + 1)"
      using 1(1) [OF True, unfolded sw] ok' t True jt A' B' by auto
    then show ?thesis unfolding res using p0 by (auto intro: perm_in_trans)
  next
    case False
    then have res: "insertionSort_j data a j = data"
      by (subst insertionSort_j.simps) auto
    have "sorted_in data a (t + 1)"
    proof (rule sorted_inI)
      fix p q assume h: "a \<le> p" "p < q" "q < t + 1"
      consider "q = j" | "p = j" | "p \<noteq> j" "q \<noteq> j" by blast
      then show "seq_of (data ! p) \<le> seq_of (data ! q)"
      proof cases
        case 1
        then have aj': "a < j" using h by auto
        then have "\<not> data_Less data j (j - 1)" using False by simp
        then have le: "seq_of (data ! (j - 1)) \<le> seq_of (data ! j)"
          using ok t jt by (simp add: data_Less_key not_less)
        show ?thesis
        proof (cases "p = j - 1")
          case True
          then show ?thesis using le 1 by simp
        next
          case False
          then have "seq_of (data ! p) \<le> seq_of (data ! (j - 1))"
            using h 1 jt aj' by (intro A) auto
          then show ?thesis using le 1 by simp
        qed
      next
        case 2
        then show ?thesis using h B [of q] by auto
      next
        case 3
        then show ?thesis using h A [of p q] by auto
      qed
    qed
    then show ?thesis unfolding res by (simp add: perm_in_refl)
  qed
qed

lemma insertionSort_i_correct:
  assumes "batch_ok xs" "b \<le> length xs" "a \<le> i" "i \<le> b" "sorted_in xs a i"
  shows "perm_in a b xs (insertionSort_i xs a b i) \<and> sorted_in (insertionSort_i xs a b i) a b"
  using assms
proof (induction xs a b i rule: insertionSort_i.induct)
  case (1 data a b i)
  show ?case
  proof (cases "i < b")
    case True
    let ?ys = "insertionSort_j data a i"
    have res: "insertionSort_i data a b i = insertionSort_i ?ys a b (i + 1)"
      using True by (subst insertionSort_i.simps) simp
    have A: "\<forall>p q. a \<le> p \<and> p < q \<and> q \<le> i \<and> p \<noteq> i \<and> q \<noteq> i \<longrightarrow>
               seq_of (data ! p) \<le> seq_of (data ! q)"
      using 1(6) by (auto simp: sorted_in_def)
    have j: "perm_in a (i + 1) data ?ys \<and> sorted_in ?ys a (i + 1)"
      using 1(2,3,4) True A by (intro insertionSort_j_correct) auto
    then have p: "perm_in a b data ?ys"
      using True 1(3) by (auto intro: perm_in_mono)
    have ok: "batch_ok ?ys" using p 1(2) by (rule perm_in_batch_ok)
    have len: "length ?ys = length data" using p by (rule perm_in_length)
    have "perm_in a b ?ys (insertionSort_i ?ys a b (i + 1)) \<and>
          sorted_in (insertionSort_i ?ys a b (i + 1)) a b"
      using 1(1) [OF True] ok len 1(3,4) True j by auto
    then show ?thesis unfolding res using p by (auto intro: perm_in_trans)
  next
    case False
    then have "insertionSort_i data a b i = data" by (subst insertionSort_i.simps) simp
    moreover have "i = b" using False 1(5) by simp
    ultimately show ?thesis using 1(6) by (simp add: perm_in_refl)
  qed
qed

lemma insertionSort_correct:
  assumes "batch_ok xs" "b \<le> length xs"
  shows "perm_in a b xs (insertionSort xs a b) \<and> sorted_in (insertionSort xs a b) a b"
proof (cases "a + 1 \<le> b")
  case True
  have "sorted_in xs a (a + 1)" by (auto simp: sorted_in_def)
  then show ?thesis unfolding insertionSort_def
    using assms True by (intro insertionSort_i_correct) auto
next
  case False
  then have "insertionSort xs a b = xs"
    unfolding insertionSort_def by (subst insertionSort_i.simps) simp
  then show ?thesis using False by (auto simp: perm_in_refl sorted_in_def)
qed

text \<open>Stability of the insertion sort\<close>

lemma swapped_adjacent:
  assumes "Suc i < length xs"
  shows "swapped xs (Suc i) i = take i xs @ [xs ! Suc i, xs ! i] @ drop (Suc (Suc i)) xs"
proof (rule nth_equalityI)
  show "length (swapped xs (Suc i) i) =
        length (take i xs @ [xs ! Suc i, xs ! i] @ drop (Suc (Suc i)) xs)"
    using assms by simp
next
  fix k assume "k < length (swapped xs (Suc i) i)"
  then have k: "k < length xs" by simp
  consider "k < i" | "k = i" | "k = Suc i" | "k > Suc i" by linarith
  then show "swapped xs (Suc i) i ! k =
             (take i xs @ [xs ! Suc i, xs ! i] @ drop (Suc (Suc i)) xs) ! k"
  proof cases
    case 1
    then show ?thesis using assms k by (simp add: nth_swapped nth_append)
  next
    case 2
    then show ?thesis using assms k by (simp add: nth_swapped nth_append)
  next
    case 3
    then show ?thesis using assms k by (simp add: nth_swapped nth_append)
  next
    case 4
    then obtain d where "k = Suc (Suc i) + d" using less_imp_add_positive
      by (metis Suc_leI add.commute le_Suc_ex)
    then show ?thesis using assms k by (simp add: nth_swapped nth_append)
  qed
qed

lemma same_ties_swapped:
  assumes "Suc i < length xs" "seq_of (xs ! i) \<noteq> seq_of (xs ! Suc i)"
  shows "same_ties xs (swapped xs (Suc i) i)"
proof -
  have xs: "xs = take i xs @ [xs ! i, xs ! Suc i] @ drop (Suc (Suc i)) xs"
    using assms(1) by (metis Cons_nth_drop_Suc Suc_lessD append_Cons append_Nil id_take_nth_drop)
  show ?thesis
    unfolding same_ties_def swapped_adjacent [OF assms(1)]
    by (subst (2) xs) (use assms(2) in auto)
qed

lemma same_ties_refl: "same_ties xs xs"
  by (simp add: same_ties_def)

lemma same_ties_trans: "same_ties xs ys \<Longrightarrow> same_ties ys zs \<Longrightarrow> same_ties xs zs"
  by (simp add: same_ties_def)

lemma insertionSort_j_ties:
  assumes "batch_ok xs" "j < length xs"
  shows "same_ties xs (insertionSort_j xs a j) \<and> length (insertionSort_j xs a j) = length xs \<and>
         batch_ok (insertionSort_j xs a j)"
  using assms
proof (induction xs a j rule: insertionSort_j.induct)
  case (1 data a j)
  show ?case
  proof (cases "a < j \<and> data_Less data j (j - 1)")
    case True
    then obtain i where i: "j = Suc i" by (cases j) auto
    have lt: "seq_of (data ! Suc i) < seq_of (data ! i)"
      using True 1(2,3) i by (simp add: data_Less_key)
    let ?ys = "swapped data (Suc i) i"
    have sw: "data_Swap data j (j - 1) = ?ys" using 1(3) i by (simp add: data_Swap_swapped)
    have res: "insertionSort_j data a j = insertionSort_j ?ys a i"
      using True sw i by (subst insertionSort_j.simps) simp
    have t: "same_ties data ?ys" using 1(3) i lt by (intro same_ties_swapped) auto
    have ok: "batch_ok ?ys"
      using 1(2,3) i mset_eq_setD [OF mset_swapped [of "Suc i" data i]]
      by (auto simp: batch_ok_iff)
    have "same_ties ?ys (insertionSort_j ?ys a i) \<and>
          length (insertionSort_j ?ys a i) = length ?ys \<and> batch_ok (insertionSort_j ?ys a i)"
      using 1(1) [OF True] ok 1(3) i sw by auto
    then show ?thesis unfolding res using t by (auto intro: same_ties_trans)
  next
    case False
    then have "insertionSort_j data a j = data" by (subst insertionSort_j.simps) auto
    then show ?thesis using 1(2) by (simp add: same_ties_refl)
  qed
qed

lemma insertionSort_i_ties:
  assumes "batch_ok xs" "b \<le> length xs"
  shows "same_ties xs (insertionSort_i xs a b i)"
  using assms
proof (induction xs a b i rule: insertionSort_i.induct)
  case (1 data a b i)
  show ?case
  proof (cases "i < b")
    case True
    let ?ys = "insertionSort_j data a i"
    have res: "insertionSort_i data a b i = insertionSort_i ?ys a b (i + 1)"
      using True by (subst insertionSort_i.simps) simp
    have j: "same_ties data ?ys \<and> length ?ys = length data \<and> batch_ok ?ys"
      using 1(2,3) True by (intro insertionSort_j_ties) auto
    then have "same_ties ?ys (insertionSort_i ?ys a b (i + 1))"
      using 1(1) [OF True] 1(3) by auto
    then show ?thesis unfolding res using j by (auto intro: same_ties_trans)
  next
    case False
    then have "insertionSort_i data a b i = data" by (subst insertionSort_i.simps) simp
    then show ?thesis by (simp add: same_ties_refl)
  qed
qed

lemma sorted_in_whole:
  assumes "sorted_in xs 0 (length xs)"
  shows "sorted (map seq_of xs)"
  using assms by (auto simp: sorted_in_def sorted_iff_nth_mono_less)

lemma insertionSort_whole:
  assumes "batch_ok xs"
  shows "insertionSort xs 0 (length xs) = sort_key seq_of xs"
proof -
  let ?ys = "insertionSort xs 0 (length xs)"
  have c: "perm_in 0 (length xs) xs ?ys \<and> sorted_in ?ys 0 (length xs)"
    using assms by (intro insertionSort_correct) auto
  then have m: "mset ?ys = mset xs" by (auto dest: perm_in_mset)
  have len: "length ?ys = length xs" using c by (auto dest: perm_in_length)
  have s: "sorted (map seq_of ?ys)" using c len by (intro sorted_in_whole) simp
  have t: "same_ties xs ?ys"
    unfolding insertionSort_def using assms by (intro insertionSort_i_ties) auto
  have "sort_key seq_of xs = ?ys"
    using m s t by (intro properties_for_sort_key) (auto simp: same_ties_def)
  then show ?thesis by simp
qed

subsubsection \<open>The partitions\<close>

text \<open>\<^verbatim>\<open>partition\<close> leaves the pivot at the index it returns, the entries
  of smaller sequence before it and the others after it;
  \<^verbatim>\<open>partitionEqual\<close>, called when no entry of the range has a smaller
  sequence than the pivot, leaves the entries of the pivot's sequence first.\<close>

lemma partition_i_spec:
  assumes "batch_ok d" "a < length d" "j < length d"
  shows "i \<le> partition_i d a i j \<and>
         (i \<le> Suc j \<longrightarrow> partition_i d a i j \<le> Suc j) \<and>
         (\<forall>k. i \<le> k \<and> k < partition_i d a i j \<longrightarrow> seq_of (d ! k) < seq_of (d ! a)) \<and>
         (partition_i d a i j \<le> j \<longrightarrow> \<not> seq_of (d ! partition_i d a i j) < seq_of (d ! a))"
  using assms
proof (induction d a i j rule: partition_i.induct)
  case (1 data a i j)
  show ?case
  proof (cases "i \<le> j \<and> data_Less data i a")
    case True
    then have "i < length data" using 1(4) by simp
    then have lt: "seq_of (data ! i) < seq_of (data ! a)"
      using True 1(2,3) by (simp add: data_Less_key)
    have res: "partition_i data a i j = partition_i data a (i + 1) j"
      using True by (subst partition_i.simps) simp
    have ih: "i + 1 \<le> partition_i data a (i + 1) j \<and>
         (i + 1 \<le> Suc j \<longrightarrow> partition_i data a (i + 1) j \<le> Suc j) \<and>
         (\<forall>k. i + 1 \<le> k \<and> k < partition_i data a (i + 1) j \<longrightarrow> seq_of (data ! k) < seq_of (data ! a)) \<and>
         (partition_i data a (i + 1) j \<le> j \<longrightarrow>
            \<not> seq_of (data ! partition_i data a (i + 1) j) < seq_of (data ! a))"
      using 1(1) [OF True] 1(2,3,4) by simp
    have "\<forall>k. i \<le> k \<and> k < partition_i data a (i + 1) j \<longrightarrow> seq_of (data ! k) < seq_of (data ! a)"
    proof (intro allI impI)
      fix k assume "i \<le> k \<and> k < partition_i data a (i + 1) j"
      then show "seq_of (data ! k) < seq_of (data ! a)"
        using ih lt by (cases "k = i") auto
    qed
    then show ?thesis unfolding res using ih True by auto
  next
    case False
    then have res: "partition_i data a i j = i" by (subst partition_i.simps) auto
    show ?thesis unfolding res using False 1(2,3,4) by (auto simp: data_Less_key)
  qed
qed

lemma partition_j_spec:
  assumes "batch_ok d" "a < length d" "j < length d" "0 < i"
  shows "partition_j d a i j \<le> j \<and>
         (i \<le> Suc j \<longrightarrow> i \<le> Suc (partition_j d a i j)) \<and>
         (\<forall>k. partition_j d a i j < k \<and> k \<le> j \<longrightarrow> seq_of (d ! a) \<le> seq_of (d ! k)) \<and>
         (i \<le> partition_j d a i j \<longrightarrow> seq_of (d ! partition_j d a i j) < seq_of (d ! a))"
  using assms
proof (induction j)
  case 0
  then show ?case by simp
next
  case (Suc j)
  show ?case
  proof (cases "i \<le> Suc j \<and> \<not> data_Less d (Suc j) a")
    case True
    then have ge: "seq_of (d ! a) \<le> seq_of (d ! Suc j)"
      using Suc.prems by (simp add: data_Less_key not_less)
    have res: "partition_j d a i (Suc j) = partition_j d a i j" using True by simp
    have ih: "partition_j d a i j \<le> j \<and>
         (i \<le> Suc j \<longrightarrow> i \<le> Suc (partition_j d a i j)) \<and>
         (\<forall>k. partition_j d a i j < k \<and> k \<le> j \<longrightarrow> seq_of (d ! a) \<le> seq_of (d ! k)) \<and>
         (i \<le> partition_j d a i j \<longrightarrow> seq_of (d ! partition_j d a i j) < seq_of (d ! a))"
      using Suc by simp
    have "\<forall>k. partition_j d a i j < k \<and> k \<le> Suc j \<longrightarrow> seq_of (d ! a) \<le> seq_of (d ! k)"
    proof (intro allI impI)
      fix k assume "partition_j d a i j < k \<and> k \<le> Suc j"
      then show "seq_of (d ! a) \<le> seq_of (d ! k)"
        using ih ge by (cases "k = Suc j") auto
    qed
    then show ?thesis unfolding res using ih True by auto
  next
    case False
    then have res: "partition_j d a i (Suc j) = Suc j" by auto
    show ?thesis unfolding res using False Suc.prems by (auto simp: data_Less_key)
  qed
qed

lemma partition_loop_spec:
  assumes "batch_ok d" "b \<le> length d" "a < i" "i \<le> Suc j" "j < b"
    and "\<forall>k. a < k \<and> k < i \<longrightarrow> seq_of (d ! k) < seq_of (d ! a)"
    and "\<forall>k. j < k \<and> k < b \<longrightarrow> seq_of (d ! a) \<le> seq_of (d ! k)"
    and "partition_loop d a i j = (d', r)"
  shows "perm_in (Suc a) b d d' \<and> a \<le> r \<and> r < b \<and>
         (\<forall>k. a < k \<and> k \<le> r \<longrightarrow> seq_of (d' ! k) < seq_of (d' ! a)) \<and>
         (\<forall>k. r < k \<and> k < b \<longrightarrow> seq_of (d' ! a) \<le> seq_of (d' ! k))"
  using assms
proof (induction d a i j arbitrary: d' r rule: partition_loop.induct)
  case (1 data a i j)
  note ok = \<open>batch_ok data\<close> and b = \<open>b \<le> length data\<close> and ai = \<open>a < i\<close> and ij = \<open>i \<le> Suc j\<close>
    and jb = \<open>j < b\<close>
  note L = 1(7) [rule_format] and R = 1(8) [rule_format]
  let ?i = "partition_i data a i j"
  let ?j = "partition_j data a ?i j"
  have al: "a < length data" and jl: "j < length data" using ai ij jb b by auto
  note si = partition_i_spec [OF ok al jl, of i]
  have i0: "0 < ?i" using si ai by auto
  note sj = partition_j_spec [OF ok al jl i0]
  have L1: "seq_of (data ! k) < seq_of (data ! a)" if "a < k" "k < ?i" for k
    using that L [of k] si by (cases "k < i") auto
  have R1: "seq_of (data ! a) \<le> seq_of (data ! k)" if "?j < k" "k < b" for k
    using that R [of k] sj by (cases "j < k") auto
  show ?case
  proof (cases "?i > ?j")
    case True
    then have res: "d' = data" "r = ?j"
      using 1(9) by (subst (asm) partition_loop.simps; auto)+
    have "a \<le> ?j" using si sj ai ij True by auto
    moreover have "?j < b" using sj jb by auto
    moreover have "seq_of (data ! k) < seq_of (data ! a)" if "a < k" "k \<le> ?j" for k
      using that True by (intro L1) auto
    ultimately show ?thesis unfolding res using R1 by (auto simp: perm_in_refl)
  next
    case False
    then have le: "?i \<le> ?j" by simp
    have notlt: "\<not> seq_of (data ! ?i) < seq_of (data ! a)" using si le sj by auto
    have lt: "seq_of (data ! ?j) < seq_of (data ! a)" using sj le by auto
    have neq: "?i < ?j" using le notlt lt by (cases "?i = ?j") auto
    have ib: "?i < b" "?j < b" "a < ?i" "a < ?j" using si sj ai jb neq by auto
    let ?d = "swapped data ?i ?j"
    have sw: "data_Swap data ?i ?j = ?d" using ib b by (simp add: data_Swap_swapped)
    have step: "partition_loop ?d a (?i + 1) (?j - 1) = (d', r)"
      using 1(9) False sw by (subst (asm) partition_loop.simps) simp
    have p0: "perm_in (Suc a) b data ?d"
      using ib b by (intro perm_in_step perm_in_refl) auto
    have ok': "batch_ok ?d" using p0 ok by (rule perm_in_batch_ok)
    have nth: "?d ! k = (if k = ?j then data ! ?i else if k = ?i then data ! ?j else data ! k)"
      if "k < b" for k
      using that ib b by (auto simp: nth_swapped)
    have da: "?d ! a = data ! a" using ib nth [of a] by auto
    have L2: "\<forall>k. a < k \<and> k < ?i + 1 \<longrightarrow> seq_of (?d ! k) < seq_of (?d ! a)"
    proof (intro allI impI)
      fix k assume h: "a < k \<and> k < ?i + 1"
      show "seq_of (?d ! k) < seq_of (?d ! a)"
      proof (cases "k = ?i")
        case True
        then show ?thesis using lt ib neq by (simp add: nth da)
      next
        case False
        then have "k < ?i" using h by auto
        then show ?thesis using L1 [of k] h ib neq by (simp add: nth da)
      qed
    qed
    have R2: "\<forall>k. ?j - 1 < k \<and> k < b \<longrightarrow> seq_of (?d ! a) \<le> seq_of (?d ! k)"
    proof (intro allI impI)
      fix k assume h: "?j - 1 < k \<and> k < b"
      show "seq_of (?d ! a) \<le> seq_of (?d ! k)"
      proof (cases "k = ?j")
        case True
        then show ?thesis using notlt ib by (simp add: nth da not_less)
      next
        case False
        then have "?j < k" using h by auto
        then show ?thesis using R1 [of k] h ib neq by (simp add: nth da)
      qed
    qed
    have "perm_in (Suc a) b ?d d' \<and> a \<le> r \<and> r < b \<and>
         (\<forall>k. a < k \<and> k \<le> r \<longrightarrow> seq_of (d' ! k) < seq_of (d' ! a)) \<and>
         (\<forall>k. r < k \<and> k < b \<longrightarrow> seq_of (d' ! a) \<le> seq_of (d' ! k))"
      using 1(1) [OF False, unfolded sw, OF ok' _ _ _ _ L2 R2 step] b ib neq by auto
    then show ?thesis using p0 by (auto intro: perm_in_trans)
  qed
qed

lemma partition_alt:
  "partition' data a b pivot =
     (case partition_loop (data_Swap data a pivot) a (a + 1) (b - 1) of
        (d', r) \<Rightarrow>
          (data_Swap d' r a, r,
           partition_i (data_Swap data a pivot) a (a + 1) (b - 1) >
           partition_j (data_Swap data a pivot) a
             (partition_i (data_Swap data a pivot) a (a + 1) (b - 1)) (b - 1)))"
  by (subst partition_loop.simps) (simp add: partition'_def Let_def split: prod.splits)

lemma partition_spec:
  assumes "batch_ok xs" "a < b" "b \<le> length xs" "a \<le> pivot" "pivot < b"
    and "partition' xs a b pivot = (ys, mid, ap)"
  shows "perm_in a b xs ys \<and> a \<le> mid \<and> mid < b \<and>
         (\<forall>k. a \<le> k \<and> k < mid \<longrightarrow> seq_of (ys ! k) < seq_of (ys ! mid)) \<and>
         (\<forall>k. mid < k \<and> k < b \<longrightarrow> seq_of (ys ! mid) \<le> seq_of (ys ! k))"
proof -
  let ?d0 = "swapped xs a pivot"
  have sw0: "data_Swap xs a pivot = ?d0" using assms by (simp add: data_Swap_swapped)
  obtain d' r where loop: "partition_loop ?d0 a (a + 1) (b - 1) = (d', r)"
    by (cases "partition_loop ?d0 a (a + 1) (b - 1)")
  have res: "ys = data_Swap d' r a" "mid = r"
    using assms(6) loop unfolding partition_alt sw0 by auto
  have p0: "perm_in a b xs ?d0"
    using assms by (intro perm_in_step perm_in_refl) auto
  have ok0: "batch_ok ?d0" using p0 assms(1) by (rule perm_in_batch_ok)
  have len0: "length ?d0 = length xs" by simp
  have spec: "perm_in (Suc a) b ?d0 d' \<and> a \<le> r \<and> r < b \<and>
         (\<forall>k. a < k \<and> k \<le> r \<longrightarrow> seq_of (d' ! k) < seq_of (d' ! a)) \<and>
         (\<forall>k. r < k \<and> k < b \<longrightarrow> seq_of (d' ! a) \<le> seq_of (d' ! k))"
    using assms(2,3) by (intro partition_loop_spec [OF ok0 _ _ _ _ _ _ loop]) auto
  then have p1: "perm_in a b ?d0 d'" using assms(3) by (auto intro: perm_in_mono)
  have len1: "length d' = length xs" using p1 by (auto dest: perm_in_length)
  have rb: "a \<le> r" "r < b" using spec by auto
  have sw1: "data_Swap d' r a = swapped d' r a"
    using rb assms(2,3) len1 by (simp add: data_Swap_swapped)
  have p2: "perm_in a b d' (swapped d' r a)"
    using rb assms(2,3) len1 by (intro perm_in_step perm_in_refl) auto
  have nth: "swapped d' r a ! k = (if k = a then d' ! r else if k = r then d' ! a else d' ! k)"
    if "k < b" for k
    using that rb assms(2,3) len1 by (auto simp: nth_swapped)
  have left: "\<forall>k. a \<le> k \<and> k < r \<longrightarrow> seq_of (swapped d' r a ! k) < seq_of (swapped d' r a ! r)"
  proof (intro allI impI)
    fix k assume h: "a \<le> k \<and> k < r"
    show "seq_of (swapped d' r a ! k) < seq_of (swapped d' r a ! r)"
    proof (cases "k = a")
      case True
      then show ?thesis using h rb spec by (simp add: nth)
    next
      case False
      then show ?thesis using h rb spec by (simp add: nth)
    qed
  qed
  have right: "\<forall>k. r < k \<and> k < b \<longrightarrow> seq_of (swapped d' r a ! r) \<le> seq_of (swapped d' r a ! k)"
    using rb spec by (auto simp: nth)
  show ?thesis unfolding res sw1
    using p0 p1 p2 rb left right by (auto intro: perm_in_trans)
qed

lemma partitionEqual_i_spec:
  assumes "batch_ok d" "a < length d" "j < length d"
  shows "i \<le> partitionEqual_i d a i j \<and>
         (i \<le> Suc j \<longrightarrow> partitionEqual_i d a i j \<le> Suc j) \<and>
         (\<forall>k. i \<le> k \<and> k < partitionEqual_i d a i j \<longrightarrow> seq_of (d ! k) \<le> seq_of (d ! a)) \<and>
         (partitionEqual_i d a i j \<le> j \<longrightarrow> seq_of (d ! a) < seq_of (d ! partitionEqual_i d a i j))"
  using assms
proof (induction d a i j rule: partitionEqual_i.induct)
  case (1 data a i j)
  show ?case
  proof (cases "i \<le> j \<and> \<not> data_Less data a i")
    case True
    then have "i < length data" using 1(4) by simp
    then have lt: "seq_of (data ! i) \<le> seq_of (data ! a)"
      using True 1(2,3) by (simp add: data_Less_key not_less)
    have res: "partitionEqual_i data a i j = partitionEqual_i data a (i + 1) j"
      using True by (subst partitionEqual_i.simps) simp
    have ih: "i + 1 \<le> partitionEqual_i data a (i + 1) j \<and>
         (i + 1 \<le> Suc j \<longrightarrow> partitionEqual_i data a (i + 1) j \<le> Suc j) \<and>
         (\<forall>k. i + 1 \<le> k \<and> k < partitionEqual_i data a (i + 1) j \<longrightarrow>
              seq_of (data ! k) \<le> seq_of (data ! a)) \<and>
         (partitionEqual_i data a (i + 1) j \<le> j \<longrightarrow>
            seq_of (data ! a) < seq_of (data ! partitionEqual_i data a (i + 1) j))"
      using 1(1) [OF True] 1(2,3,4) by simp
    have "\<forall>k. i \<le> k \<and> k < partitionEqual_i data a (i + 1) j \<longrightarrow>
            seq_of (data ! k) \<le> seq_of (data ! a)"
    proof (intro allI impI)
      fix k assume "i \<le> k \<and> k < partitionEqual_i data a (i + 1) j"
      then show "seq_of (data ! k) \<le> seq_of (data ! a)"
        using ih lt by (cases "k = i") auto
    qed
    then show ?thesis unfolding res using ih True by auto
  next
    case False
    then have res: "partitionEqual_i data a i j = i" by (subst partitionEqual_i.simps) auto
    show ?thesis unfolding res using False 1(2,3,4) by (auto simp: data_Less_key)
  qed
qed

lemma partitionEqual_j_spec:
  assumes "batch_ok d" "a < length d" "j < length d" "0 < i"
  shows "partitionEqual_j d a i j \<le> j \<and>
         (i \<le> Suc j \<longrightarrow> i \<le> Suc (partitionEqual_j d a i j)) \<and>
         (\<forall>k. partitionEqual_j d a i j < k \<and> k \<le> j \<longrightarrow> seq_of (d ! a) < seq_of (d ! k)) \<and>
         (i \<le> partitionEqual_j d a i j \<longrightarrow> seq_of (d ! partitionEqual_j d a i j) \<le> seq_of (d ! a))"
  using assms
proof (induction j)
  case 0
  then show ?case by simp
next
  case (Suc j)
  show ?case
  proof (cases "i \<le> Suc j \<and> data_Less d a (Suc j)")
    case True
    then have ge: "seq_of (d ! a) < seq_of (d ! Suc j)"
      using Suc.prems by (simp add: data_Less_key)
    have res: "partitionEqual_j d a i (Suc j) = partitionEqual_j d a i j" using True by simp
    have ih: "partitionEqual_j d a i j \<le> j \<and>
         (i \<le> Suc j \<longrightarrow> i \<le> Suc (partitionEqual_j d a i j)) \<and>
         (\<forall>k. partitionEqual_j d a i j < k \<and> k \<le> j \<longrightarrow> seq_of (d ! a) < seq_of (d ! k)) \<and>
         (i \<le> partitionEqual_j d a i j \<longrightarrow> seq_of (d ! partitionEqual_j d a i j) \<le> seq_of (d ! a))"
      using Suc by simp
    have "\<forall>k. partitionEqual_j d a i j < k \<and> k \<le> Suc j \<longrightarrow> seq_of (d ! a) < seq_of (d ! k)"
    proof (intro allI impI)
      fix k assume "partitionEqual_j d a i j < k \<and> k \<le> Suc j"
      then show "seq_of (d ! a) < seq_of (d ! k)"
        using ih ge by (cases "k = Suc j") auto
    qed
    then show ?thesis unfolding res using ih True by auto
  next
    case False
    then have res: "partitionEqual_j d a i (Suc j) = Suc j" by auto
    show ?thesis unfolding res using False Suc.prems by (auto simp: data_Less_key not_less)
  qed
qed

lemma partitionEqual_loop_spec:
  assumes "batch_ok d" "b \<le> length d" "a < i" "i \<le> Suc j" "j < b"
    and "\<forall>k. a < k \<and> k < i \<longrightarrow> seq_of (d ! k) \<le> seq_of (d ! a)"
    and "\<forall>k. j < k \<and> k < b \<longrightarrow> seq_of (d ! a) < seq_of (d ! k)"
    and "partitionEqual_loop d a i j = (d', r)"
  shows "perm_in (Suc a) b d d' \<and> a < r \<and> r \<le> b \<and>
         (\<forall>k. a < k \<and> k < r \<longrightarrow> seq_of (d' ! k) \<le> seq_of (d' ! a)) \<and>
         (\<forall>k. r \<le> k \<and> k < b \<longrightarrow> seq_of (d' ! a) < seq_of (d' ! k))"
  using assms
proof (induction d a i j arbitrary: d' r rule: partitionEqual_loop.induct)
  case (1 data a i j)
  note ok = \<open>batch_ok data\<close> and b = \<open>b \<le> length data\<close> and ai = \<open>a < i\<close> and ij = \<open>i \<le> Suc j\<close>
    and jb = \<open>j < b\<close>
  note L = 1(7) [rule_format] and R = 1(8) [rule_format]
  let ?i = "partitionEqual_i data a i j"
  let ?j = "partitionEqual_j data a ?i j"
  have al: "a < length data" and jl: "j < length data" using ai ij jb b by auto
  note si = partitionEqual_i_spec [OF ok al jl, of i]
  have i0: "0 < ?i" using si ai by auto
  note sj = partitionEqual_j_spec [OF ok al jl i0]
  have L1: "seq_of (data ! k) \<le> seq_of (data ! a)" if "a < k" "k < ?i" for k
    using that L [of k] si by (cases "k < i") auto
  have R1: "seq_of (data ! a) < seq_of (data ! k)" if "?j < k" "k < b" for k
    using that R [of k] sj by (cases "j < k") auto
  show ?case
  proof (cases "?i > ?j")
    case True
    then have res: "d' = data" "r = ?i"
      using 1(9) by (subst (asm) partitionEqual_loop.simps; auto)+
    have "a < ?i" using si ai by auto
    moreover have "?i \<le> b" using si ij jb by auto
    moreover have "seq_of (data ! a) < seq_of (data ! k)" if "?i \<le> k" "k < b" for k
      using that True by (intro R1) auto
    ultimately show ?thesis unfolding res using L1 by (auto simp: perm_in_refl)
  next
    case False
    then have le: "?i \<le> ?j" by simp
    have gt: "seq_of (data ! a) < seq_of (data ! ?i)" using si le sj by auto
    have lt: "seq_of (data ! ?j) \<le> seq_of (data ! a)" using sj le by auto
    have neq: "?i < ?j" using le gt lt by (cases "?i = ?j") auto
    have ib: "?i < b" "?j < b" "a < ?i" "a < ?j" using si sj ai jb neq by auto
    let ?d = "swapped data ?i ?j"
    have sw: "data_Swap data ?i ?j = ?d" using ib b by (simp add: data_Swap_swapped)
    have step: "partitionEqual_loop ?d a (?i + 1) (?j - 1) = (d', r)"
      using 1(9) False sw by (subst (asm) partitionEqual_loop.simps) simp
    have p0: "perm_in (Suc a) b data ?d"
      using ib b by (intro perm_in_step perm_in_refl) auto
    have ok': "batch_ok ?d" using p0 ok by (rule perm_in_batch_ok)
    have nth: "?d ! k = (if k = ?j then data ! ?i else if k = ?i then data ! ?j else data ! k)"
      if "k < b" for k
      using that ib b by (auto simp: nth_swapped)
    have da: "?d ! a = data ! a" using ib nth [of a] by auto
    have L2: "\<forall>k. a < k \<and> k < ?i + 1 \<longrightarrow> seq_of (?d ! k) \<le> seq_of (?d ! a)"
    proof (intro allI impI)
      fix k assume h: "a < k \<and> k < ?i + 1"
      show "seq_of (?d ! k) \<le> seq_of (?d ! a)"
      proof (cases "k = ?i")
        case True
        then show ?thesis using lt ib neq by (simp add: nth da)
      next
        case False
        then have "k < ?i" using h by auto
        then show ?thesis using L1 [of k] h ib neq by (simp add: nth da)
      qed
    qed
    have R2: "\<forall>k. ?j - 1 < k \<and> k < b \<longrightarrow> seq_of (?d ! a) < seq_of (?d ! k)"
    proof (intro allI impI)
      fix k assume h: "?j - 1 < k \<and> k < b"
      show "seq_of (?d ! a) < seq_of (?d ! k)"
      proof (cases "k = ?j")
        case True
        then show ?thesis using gt ib by (simp add: nth da)
      next
        case False
        then have "?j < k" using h by auto
        then show ?thesis using R1 [of k] h ib neq by (simp add: nth da)
      qed
    qed
    have "perm_in (Suc a) b ?d d' \<and> a < r \<and> r \<le> b \<and>
         (\<forall>k. a < k \<and> k < r \<longrightarrow> seq_of (d' ! k) \<le> seq_of (d' ! a)) \<and>
         (\<forall>k. r \<le> k \<and> k < b \<longrightarrow> seq_of (d' ! a) < seq_of (d' ! k))"
      using 1(1) [OF False, unfolded sw, OF ok' _ _ _ _ L2 R2 step] b ib neq by auto
    then show ?thesis using p0 by (auto intro: perm_in_trans)
  qed
qed

lemma partitionEqual_spec:
  assumes "batch_ok xs" "a < b" "b \<le> length xs" "a \<le> pivot" "pivot < b"
    and "partitionEqual xs a b pivot = (ys, mid)"
  shows "perm_in a b xs ys \<and> a < mid \<and> mid \<le> b \<and>
         (\<forall>k. a \<le> k \<and> k < mid \<longrightarrow> seq_of (ys ! k) \<le> seq_of (xs ! pivot)) \<and>
         (\<forall>k. mid \<le> k \<and> k < b \<longrightarrow> seq_of (xs ! pivot) < seq_of (ys ! k))"
proof -
  let ?d0 = "swapped xs a pivot"
  have sw0: "data_Swap xs a pivot = ?d0" using assms by (simp add: data_Swap_swapped)
  have loop: "partitionEqual_loop ?d0 a (a + 1) (b - 1) = (ys, mid)"
    using assms(6) by (simp add: partitionEqual_def sw0)
  have p0: "perm_in a b xs ?d0"
    using assms by (intro perm_in_step perm_in_refl) auto
  have ok0: "batch_ok ?d0" using p0 assms(1) by (rule perm_in_batch_ok)
  have spec: "perm_in (Suc a) b ?d0 ys \<and> a < mid \<and> mid \<le> b \<and>
         (\<forall>k. a < k \<and> k < mid \<longrightarrow> seq_of (ys ! k) \<le> seq_of (ys ! a)) \<and>
         (\<forall>k. mid \<le> k \<and> k < b \<longrightarrow> seq_of (ys ! a) < seq_of (ys ! k))"
    using assms(2,3) by (intro partitionEqual_loop_spec [OF ok0 _ _ _ _ _ _ loop]) auto
  then have p1: "perm_in a b ?d0 ys" using assms(3) by (auto intro: perm_in_mono)
  have "ys ! a = ?d0 ! a" using spec by (auto dest: perm_in_outside)
  then have ya: "ys ! a = xs ! pivot" using assms by (simp add: nth_swapped)
  have "\<forall>k. a \<le> k \<and> k < mid \<longrightarrow> seq_of (ys ! k) \<le> seq_of (xs ! pivot)"
  proof (intro allI impI)
    fix k assume "a \<le> k \<and> k < mid"
    then show "seq_of (ys ! k) \<le> seq_of (xs ! pivot)"
      using spec ya by (cases "k = a") auto
  qed
  then show ?thesis using p0 p1 spec ya by (auto intro: perm_in_trans)
qed

subsubsection \<open>Reversal, choice of the pivot, breaking of patterns\<close>

text \<open>These steps exchange entries of the range and choose a pivot within
  it, whatever the generator draws.\<close>

lemma inv_left_perm:
  assumes "perm_in a b xs ys" "inv_left xs a b"
  shows "inv_left ys a b"
  unfolding inv_left_def
proof (intro allI impI)
  fix k assume h: "0 < a \<and> a \<le> k \<and> k < b"
  then obtain k' where k': "a \<le> k'" "k' < b" "ys ! k = xs ! k'"
    using perm_in_range_nth [OF assms(1), of k] by auto
  have "ys ! (a - 1) = xs ! (a - 1)" using perm_in_outside [OF assms(1), of "a - 1"] h by auto
  then show "seq_of (ys ! (a - 1)) \<le> seq_of (ys ! k)"
    using assms(2) h k' by (auto simp: inv_left_def)
qed

lemma reverseRange_loop_perm:
  assumes "a \<le> i" "j < b" "b \<le> length xs"
  shows "perm_in a b xs (reverseRange_loop xs i j)"
  using assms
proof (induction xs i j rule: reverseRange_loop.induct)
  case (1 data i j)
  show ?case
  proof (cases "i < j")
    case True
    have p0: "perm_in a b data (data_Swap data i j)"
      using True 1(2,3,4) by (intro perm_in_swap) auto
    then have len: "length (data_Swap data i j) = length data" by (rule perm_in_length)
    have "perm_in a b (data_Swap data i j) (reverseRange_loop (data_Swap data i j) (i + 1) (j - 1))"
      using 1(1) [OF True] 1(2,3,4) len by simp
    then show ?thesis
      using p0 True by (subst reverseRange_loop.simps) (auto intro: perm_in_trans)
  next
    case False
    then show ?thesis by (subst reverseRange_loop.simps) (simp add: perm_in_refl)
  qed
qed

lemma reverseRange_perm:
  assumes "a < b" "b \<le> length xs"
  shows "perm_in a b xs (reverseRange xs a b)"
  unfolding reverseRange_def using assms by (intro reverseRange_loop_perm) auto

lemma order2_range:
  "order2 data x y s = (x', y', s') \<Longrightarrow> (x' = x \<and> y' = y) \<or> (x' = y \<and> y' = x)"
  by (auto simp: order2_def split: if_splits)

lemma median_range:
  assumes "median data x y z s = (m, s')"
  shows "m = x \<or> m = y \<or> m = z"
proof -
  obtain x1 y1 s1 where o1: "order2 data x y s = (x1, y1, s1)"
    by (cases "order2 data x y s") auto
  obtain y2 z2 s2 where o2: "order2 data y1 z s1 = (y2, z2, s2)"
    by (cases "order2 data y1 z s1") auto
  obtain x3 y3 s3 where o3: "order2 data x1 y2 s2 = (x3, y3, s3)"
    by (cases "order2 data x1 y2 s2") auto
  have "m = y3" using assms by (simp add: median_def o1 o2 o3)
  then show ?thesis
    using order2_range [OF o1] order2_range [OF o2] order2_range [OF o3] by auto
qed

lemma medianAdjacent_range:
  "medianAdjacent data x s = (m, s') \<Longrightarrow> m = x - 1 \<or> m = x \<or> m = x + 1"
  unfolding medianAdjacent_def by (drule median_range) auto

lemma choosePivot_range:
  assumes "a < b" "choosePivot data a b = (p, h)"
  shows "a \<le> p \<and> p < b"
proof -
  let ?l = "b - a"
  let ?q = "?l div 4"
  show ?thesis
  proof (cases "?l \<ge> 8")
    case False
    then have "p = a + ?q * 2"
      using assms(2) by (auto simp: choosePivot_def Let_def split: if_splits)
    then show ?thesis using assms(1) by auto
  next
    case l8: True
    show ?thesis
    proof (cases "?l \<ge> 50")
      case False
      obtain m s where m: "median data (a + ?q * 1) (a + ?q * 2) (a + ?q * 3) 0 = (m, s)"
        by (cases "median data (a + ?q * 1) (a + ?q * 2) (a + ?q * 3) 0") auto
      have "p = m"
        using assms(2) l8 False m by (auto simp: choosePivot_def Let_def split: if_splits)
      then show ?thesis using median_range [OF m] l8 by auto
    next
      case True
      obtain i s1 where m1: "medianAdjacent data (a + ?q * 1) 0 = (i, s1)"
        by (cases "medianAdjacent data (a + ?q * 1) 0") auto
      obtain j s2 where m2: "medianAdjacent data (a + ?q * 2) s1 = (j, s2)"
        by (cases "medianAdjacent data (a + ?q * 2) s1") auto
      obtain k s3 where m3: "medianAdjacent data (a + ?q * 3) s2 = (k, s3)"
        by (cases "medianAdjacent data (a + ?q * 3) s2") auto
      obtain m s where m: "median data i j k s3 = (m, s)"
        by (cases "median data i j k s3") auto
      have "p = m"
        using assms(2) l8 True m1 m2 m3 m
        by (auto simp: choosePivot_def Let_def split: if_splits)
      moreover have "a \<le> i \<and> i < b"
        using medianAdjacent_range [OF m1] True by auto
      moreover have "a \<le> j \<and> j < b"
        using medianAdjacent_range [OF m2] True by auto
      moreover have "a \<le> k \<and> k < b"
        using medianAdjacent_range [OF m3] True by auto
      ultimately show ?thesis using median_range [OF m] by auto
    qed
  qed
qed

lemma bits_Len_bound: "0 < n \<Longrightarrow> 2 ^ bits_Len n \<le> 2 * n"
proof (induction n rule: bits_Len.induct)
  case (1 n)
  show ?case
  proof (cases "n div 2 = 0")
    case True
    then have "bits_Len (n div 2) = 0" by (subst bits_Len.simps) simp
    then have "bits_Len n = 1" using 1(2) by (subst bits_Len.simps) simp
    then show ?thesis using 1(2) by simp
  next
    case False
    then have "2 ^ bits_Len (n div 2) \<le> 2 * (n div 2)" using 1 by simp
    moreover have "bits_Len n = Suc (bits_Len (n div 2))"
      using 1(2) by (subst bits_Len.simps) simp
    ultimately show ?thesis by simp
  qed
qed

lemma masked_bound:
  assumes "0 < len"
  shows "unat (r AND (nextPowerOfTwo len - 1)) < 2 * len"
proof (cases "bits_Len len < 64")
  case True
  have "nextPowerOfTwo len - 1 = (mask (bits_Len len) :: 64 word)"
    by (simp add: nextPowerOfTwo_def mask_eq_exp_minus_1 push_bit_eq_mult)
  then have "unat (r AND (nextPowerOfTwo len - 1)) = unat (take_bit (bits_Len len) r)"
    by (simp add: take_bit_eq_mask)
  also have "\<dots> = take_bit (bits_Len len) (unat r)"
    by (simp add: unsigned_take_bit_eq)
  also have "\<dots> < 2 ^ bits_Len len" by (simp add: take_bit_eq_mod)
  finally show ?thesis using bits_Len_bound [OF assms] by simp
next
  case False
  have "unat (r AND (nextPowerOfTwo len - 1)) < 2 ^ 64"
    using unsigned_less [of "r AND (nextPowerOfTwo len - 1)", where ?'a = nat] by simp
  also have "(2::nat) ^ 64 \<le> 2 ^ bits_Len len" using False by (intro power_increasing) auto
  finally show ?thesis using bits_Len_bound [OF assms] by simp
qed

lemma breakPatterns_loop_perm:
  assumes "b \<le> length xs" "a + 2 \<le> idx - 1" "idx + 1 < b" "len = b - a"
    "modulus = nextPowerOfTwo len"
  shows "perm_in a b xs (breakPatterns_loop xs a len idx modulus random i)"
  using assms
proof (induction xs a len idx modulus random i rule: breakPatterns_loop.induct)
  case (1 data a len idx modulus random i)
  show ?case
  proof (cases "i < 3")
    case True
    let ?r = "unat (xorshift_Next random AND (modulus - 1))"
    let ?o = "a + (if ?r \<ge> len then ?r - len else ?r)"
    have "?r < 2 * len" using masked_bound [of len] 1(3,4,5,6) by simp
    then have ob: "?o < b" using 1(5) 1(3,4) by auto
    have p0: "perm_in a b data (data_Swap data (idx - 1 + i) ?o)"
      using True 1(2,3,4) ob by (intro perm_in_swap) auto
    then have len: "length (data_Swap data (idx - 1 + i) ?o) = length data" by (rule perm_in_length)
    have "perm_in a b (data_Swap data (idx - 1 + i) ?o)
            (breakPatterns_loop (data_Swap data (idx - 1 + i) ?o) a len idx modulus
               (xorshift_Next random) (i + 1))"
      using 1(1) [OF True] 1(2,3,4,5,6) len by simp
    then show ?thesis
      using p0 True by (subst breakPatterns_loop.simps) (auto intro: perm_in_trans)
  next
    case False
    then show ?thesis by (subst breakPatterns_loop.simps) (simp add: perm_in_refl)
  qed
qed

lemma breakPatterns_perm:
  assumes "b \<le> length xs"
  shows "perm_in a b xs (breakPatterns xs a b)"
proof (cases "b - a \<ge> 8")
  case True
  then have q: "2 \<le> (b - a) div 4" by linarith
  have q': "(b - a) div 4 * 2 < b - a" using True by linarith
  have "perm_in a b xs
          (breakPatterns_loop xs a (b - a) (a + (b - a) div 4 * 2 - 1)
             (nextPowerOfTwo (b - a)) (of_nat (b - a)) 0)"
    using assms q q' by (intro breakPatterns_loop_perm) auto
  then show ?thesis using True by (simp add: breakPatterns_def Let_def)
next
  case False
  then show ?thesis by (simp add: breakPatterns_def perm_in_refl)
qed

subsubsection \<open>The partial insertion sort\<close>

text \<open>\<^verbatim>\<open>partialInsertionSort\<close> exchanges entries of the range; when it
  reports the range as sorted, it is. Its shift to the left runs down to
  index 1: it stops at the start of the range because the entry before the
  range is no greater than the entries of the range.\<close>

lemma partialInsertionSort_scan_spec:
  assumes "batch_ok xs" "b \<le> length xs" "a < i" "i \<le> b" "sorted_in xs a i"
  shows "i \<le> partialInsertionSort_scan xs b i \<and> partialInsertionSort_scan xs b i \<le> b \<and>
         sorted_in xs a (partialInsertionSort_scan xs b i)"
  using assms
proof (induction xs b i rule: partialInsertionSort_scan.induct)
  case (1 data b i)
  show ?case
  proof (cases "i < b \<and> \<not> data_Less data i (i - 1)")
    case True
    then have "i < length data" "i - 1 < length data" using 1(3) by auto
    then have le: "seq_of (data ! (i - 1)) \<le> seq_of (data ! i)"
      using True data_Less_key [OF 1(2), of i "i - 1"] by (simp add: not_less)
    have s: "sorted_in data a (i + 1)"
    proof (rule sorted_inI)
      fix p q assume h: "a \<le> p" "p < q" "q < i + 1"
      show "seq_of (data ! p) \<le> seq_of (data ! q)"
      proof (cases "q = i")
        case q: True
        show ?thesis
        proof (cases "p = i - 1")
          case True
          then show ?thesis using le q by simp
        next
          case False
          then have "seq_of (data ! p) \<le> seq_of (data ! (i - 1))"
            using h q 1(6) by (intro sorted_inD [of data a i]) auto
          then show ?thesis using le q by simp
        qed
      next
        case False
        then show ?thesis using h 1(6) by (intro sorted_inD [of data a i]) auto
      qed
    qed
    have res: "partialInsertionSort_scan data b i = partialInsertionSort_scan data b (i + 1)"
      using True by (subst partialInsertionSort_scan.simps) simp
    show ?thesis unfolding res using 1(1) [OF True 1(2,3) _ _ s] 1(4) True by auto
  next
    case False
    then have res: "partialInsertionSort_scan data b i = i"
      by (subst partialInsertionSort_scan.simps) auto
    show ?thesis unfolding res using 1(5,6) by simp
  qed
qed

lemma partialInsertionSort_left_eq:
  assumes "batch_ok xs" "a \<le> j" "j < length xs"
    and "0 < a \<longrightarrow> seq_of (xs ! (a - 1)) \<le> seq_of (xs ! j)"
  shows "partialInsertionSort_left xs j = insertionSort_j xs a j"
  using assms
proof (induction xs j rule: partialInsertionSort_left.induct)
  case (1 data j)
  show ?case
  proof (cases "1 \<le> j \<and> data_Less data j (j - 1)")
    case True
    then have lt: "seq_of (data ! j) < seq_of (data ! (j - 1))"
      using 1(2,4) by (simp add: data_Less_key)
    have aj: "a < j"
    proof (rule ccontr)
      assume "\<not> a < j"
      then have "a = j" using 1(3) by simp
      then show False using 1(5) lt True by auto
    qed
    let ?d = "swapped data j (j - 1)"
    have sw: "data_Swap data j (j - 1) = ?d" using 1(4) by (simp add: data_Swap_swapped)
    have p0: "perm_in 0 (length data) data ?d"
      using 1(4) by (intro perm_in_step perm_in_refl) auto
    have ok': "batch_ok ?d" using p0 1(2) by (rule perm_in_batch_ok)
    have pre: "0 < a \<longrightarrow> seq_of (?d ! (a - 1)) \<le> seq_of (?d ! (j - 1))"
      using 1(4,5) aj by (auto simp: nth_swapped)
    have "partialInsertionSort_left ?d (j - 1) = insertionSort_j ?d a (j - 1)"
      using 1(1) [unfolded sw, OF _ _ ok' _ _ pre] True aj 1(4) by auto
    moreover have "partialInsertionSort_left data j = partialInsertionSort_left ?d (j - 1)"
      using True sw by (subst partialInsertionSort_left.simps) simp
    moreover have "insertionSort_j data a j = insertionSort_j ?d a (j - 1)"
      using True aj sw by (subst insertionSort_j.simps) simp
    ultimately show ?thesis by simp
  next
    case False
    then have "partialInsertionSort_left data j = data"
      by (subst partialInsertionSort_left.simps) auto
    moreover have "insertionSort_j data a j = data"
      using False by (subst insertionSort_j.simps) auto
    ultimately show ?thesis by simp
  qed
qed

lemma partialInsertionSort_right_perm:
  assumes "i < j" "b \<le> length xs"
  shows "perm_in i b xs (partialInsertionSort_right xs b j)"
  using assms
proof (induction xs b j rule: partialInsertionSort_right.induct)
  case (1 data b j)
  show ?case
  proof (cases "j < b \<and> data_Less data j (j - 1)")
    case True
    have p0: "perm_in i b data (data_Swap data j (j - 1))"
      using True 1(2,3) by (intro perm_in_swap) auto
    then have len: "length (data_Swap data j (j - 1)) = length data" by (rule perm_in_length)
    have "perm_in i b (data_Swap data j (j - 1))
            (partialInsertionSort_right (data_Swap data j (j - 1)) b (j + 1))"
      using 1(1) True 1(2,3) len by simp
    then show ?thesis
      using p0 True by (subst partialInsertionSort_right.simps) (auto intro: perm_in_trans)
  next
    case False
    then show ?thesis by (subst partialInsertionSort_right.simps) (auto simp: perm_in_refl)
  qed
qed

lemma sorted_in_outside:
  assumes "sorted_in xs a i" "perm_in i b xs ys"
  shows "sorted_in ys a i"
proof (rule sorted_inI)
  fix p q assume h: "a \<le> p" "p < q" "q < i"
  have "ys ! p = xs ! p" "ys ! q = xs ! q"
    using perm_in_outside [OF assms(2)] h by auto
  then show "seq_of (ys ! p) \<le> seq_of (ys ! q)"
    using sorted_inD [OF assms(1) h] by simp
qed

lemma partialInsertionSort_shift_spec:
  assumes "batch_ok xs" "b \<le> length xs" "a < i" "i < b" "sorted_in xs a i" "inv_left xs a b"
  shows "perm_in a b xs (partialInsertionSort_shift xs a b i) \<and>
         sorted_in (partialInsertionSort_shift xs a b i) a i"
proof -
  let ?d1 = "swapped xs i (i - 1)"
  have sw: "data_Swap xs i (i - 1) = ?d1" using assms by (simp add: data_Swap_swapped)
  have p1: "perm_in a b xs ?d1" using assms by (intro perm_in_step perm_in_refl) auto
  have ok1: "batch_ok ?d1" using p1 assms(1) by (rule perm_in_batch_ok)
  have len1: "length ?d1 = length xs" by simp
  define d2 where "d2 = (if i - a \<ge> 2 then partialInsertionSort_left ?d1 (i - 1) else ?d1)"
  have d2: "perm_in a i ?d1 d2 \<and> sorted_in d2 a i"
  proof (cases "i - a \<ge> 2")
    case True
    have pre: "0 < a \<longrightarrow> seq_of (?d1 ! (a - 1)) \<le> seq_of (?d1 ! (i - 1))"
      using assms(2,3,4,6) True by (auto simp: nth_swapped inv_left_def)
    have eq: "partialInsertionSort_left ?d1 (i - 1) = insertionSort_j ?d1 a (i - 1)"
      using assms(2,3,4) True by (intro partialInsertionSort_left_eq [OF ok1 _ _ pre]) auto
    have A: "\<forall>p q. a \<le> p \<and> p < q \<and> q \<le> i - 1 \<and> p \<noteq> i - 1 \<and> q \<noteq> i - 1 \<longrightarrow>
               seq_of (?d1 ! p) \<le> seq_of (?d1 ! q)"
    proof (intro allI impI)
      fix p q assume h: "a \<le> p \<and> p < q \<and> q \<le> i - 1 \<and> p \<noteq> i - 1 \<and> q \<noteq> i - 1"
      then have "?d1 ! p = xs ! p" "?d1 ! q = xs ! q"
        using assms(2,3,4) by (auto simp: nth_swapped)
      moreover have "seq_of (xs ! p) \<le> seq_of (xs ! q)"
        using h by (intro sorted_inD [OF assms(5)]) auto
      ultimately show "seq_of (?d1 ! p) \<le> seq_of (?d1 ! q)" by simp
    qed
    have "perm_in a (i - 1 + 1) ?d1 (insertionSort_j ?d1 a (i - 1)) \<and>
          sorted_in (insertionSort_j ?d1 a (i - 1)) a (i - 1 + 1)"
      using assms(2,3,4) True by (intro insertionSort_j_correct [OF ok1 _ _ _ A]) auto
    then show ?thesis using True eq assms(3) by (simp add: d2_def)
  next
    case False
    then have "i = a + 1" using assms(3) by simp
    then show ?thesis using False by (auto simp: d2_def perm_in_refl sorted_in_def)
  qed
  then have p2: "perm_in a b ?d1 d2" using assms(2,4) by (auto intro: perm_in_mono)
  have len2: "length d2 = length xs" using p2 by (auto dest: perm_in_length)
  define d3 where "d3 = (if b - i \<ge> 2 then partialInsertionSort_right d2 b (i + 1) else d2)"
  have d3: "perm_in i b d2 d3"
    using assms(2) len2 by (auto simp: d3_def perm_in_refl intro: partialInsertionSort_right_perm)
  then have p3: "perm_in a b d2 d3" using assms(2,3) len2 by (auto intro: perm_in_mono)
  have s3: "sorted_in d3 a i" using d2 d3 by (auto intro: sorted_in_outside)
  have res: "partialInsertionSort_shift xs a b i = d3"
    by (simp add: partialInsertionSort_shift_def Let_def sw d2_def d3_def del: One_nat_def)
  show ?thesis unfolding res using p1 p2 p3 s3 by (auto intro: perm_in_trans)
qed

lemma partialInsertionSort_steps_spec:
  assumes "batch_ok xs" "b \<le> length xs" "a < i" "i \<le> b" "sorted_in xs a i" "inv_left xs a b"
    and "partialInsertionSort_steps xs a b i j = (ys, flag)"
  shows "perm_in a b xs ys \<and> (flag \<longrightarrow> sorted_in ys a b)"
  using assms
proof (induction xs a b i j arbitrary: ys flag rule: partialInsertionSort_steps.induct)
  case (1 data a b i j)
  let ?s = "partialInsertionSort_scan data b i"
  note sc = partialInsertionSort_scan_spec [OF 1(2,3,4,5,6)]
  show ?case
  proof (cases "j < 5 \<and> ?s \<noteq> b \<and> \<not> b - a < 50")
    case True
    let ?d = "partialInsertionSort_shift data a b ?s"
    have sb: "a < ?s" "?s < b" using sc 1(4) True by auto
    have sh: "perm_in a b data ?d \<and> sorted_in ?d a ?s"
      using sc sb by (intro partialInsertionSort_shift_spec [OF 1(2,3) _ _ _ 1(7)]) auto
    have ok': "batch_ok ?d" using sh 1(2) by (auto intro: perm_in_batch_ok)
    have len': "b \<le> length ?d" using sh 1(3) by (auto dest: perm_in_length)
    have il: "inv_left ?d a b" using sh 1(7) by (auto intro: inv_left_perm)
    have step: "partialInsertionSort_steps ?d a b ?s (j + 1) = (ys, flag)"
      using 1(8) True by (subst (asm) partialInsertionSort_steps.simps) simp
    have "perm_in a b ?d ys \<and> (flag \<longrightarrow> sorted_in ys a b)"
      using 1(1) [OF _ _ _ ok' len' _ _ _ il step] True sb sh by auto
    then show ?thesis using sh by (auto intro: perm_in_trans)
  next
    case False
    then have res: "ys = data" "flag = (j < 5 \<and> ?s = b)"
      using 1(8) by (subst (asm) partialInsertionSort_steps.simps; auto split: if_splits)+
    show ?thesis unfolding res using sc by (auto simp: perm_in_refl)
  qed
qed

lemma partialInsertionSort_spec:
  assumes "batch_ok xs" "a < b" "b \<le> length xs" "inv_left xs a b"
    and "partialInsertionSort xs a b = (ys, flag)"
  shows "perm_in a b xs ys \<and> (flag \<longrightarrow> sorted_in ys a b)"
proof -
  have s: "sorted_in xs a (a + 1)" by (auto simp: sorted_in_def)
  show ?thesis
    using assms(2)
    by (intro partialInsertionSort_steps_spec
          [OF assms(1,3) _ _ s assms(4) assms(5) [unfolded partialInsertionSort_def]]) auto
qed

lemma pdqsort_pivot_spec:
  assumes "batch_ok xs" "a < b" "b \<le> length xs" "inv_left xs a b"
    and "pdqsort_pivot xs a b limit wb wp = (ys, limit', pivot, isSorted)"
  shows "perm_in a b xs ys \<and> a \<le> pivot \<and> pivot < b \<and> (isSorted \<longrightarrow> sorted_in ys a b)"
proof -
  define d1 where "d1 = (if \<not> wb then breakPatterns xs a b else xs)"
  define l1 where "l1 = (if \<not> wb then limit - 1 else limit)"
  have p1: "perm_in a b xs d1"
    using assms(3) by (auto simp: d1_def perm_in_refl intro: breakPatterns_perm)
  have len1: "b \<le> length d1" using p1 assms(3) by (auto dest: perm_in_length)
  obtain p h where cp: "choosePivot d1 a b = (p, h)" by (cases "choosePivot d1 a b") auto
  note pr = choosePivot_range [OF assms(2) cp]
  define d2 where "d2 = (if h = decreasingHint then reverseRange d1 a b else d1)"
  define p2 where "p2 = (if h = decreasingHint then (b - 1) - (p - a) else p)"
  define h2 where "h2 = (if h = decreasingHint then increasingHint else h)"
  have p2': "perm_in a b d1 d2"
    using assms(2) len1 by (auto simp: d2_def perm_in_refl intro: reverseRange_perm)
  have pr2: "a \<le> p2 \<and> p2 < b" using pr by (auto simp: p2_def)
  have p12: "perm_in a b xs d2" using p1 p2' by (auto intro: perm_in_trans)
  have ok2: "batch_ok d2" using p12 assms(1) by (rule perm_in_batch_ok)
  have len2: "b \<le> length d2" using p12 assms(3) by (auto dest: perm_in_length)
  have il2: "inv_left d2 a b" using p12 assms(4) by (rule inv_left_perm)
  have res: "(ys, limit', pivot, isSorted) =
               (if wb \<and> wp \<and> h2 = increasingHint
                then (case partialInsertionSort d2 a b of
                        (data, isSorted) \<Rightarrow> (data, l1, p2, isSorted))
                else (d2, l1, p2, False))"
    using assms(5) cp
    by (auto simp: pdqsort_pivot_def Let_def d1_def l1_def d2_def p2_def h2_def split: if_splits)
  show ?thesis
  proof (cases "wb \<and> wp \<and> h2 = increasingHint")
    case True
    obtain d3 f where pi: "partialInsertionSort d2 a b = (d3, f)"
      by (cases "partialInsertionSort d2 a b") auto
    have "perm_in a b d2 d3 \<and> (f \<longrightarrow> sorted_in d3 a b)"
      by (rule partialInsertionSort_spec [OF ok2 assms(2) len2 il2 pi])
    moreover have "ys = d3" "pivot = p2" "isSorted = f" using res True pi by auto
    ultimately show ?thesis using p12 pr2 by (auto intro: perm_in_trans)
  next
    case False
    then have "ys = d2" "pivot = p2" "isSorted = False" using res by auto
    then show ?thesis using p12 pr2 by auto
  qed
qed

subsubsection \<open>The heap sort\<close>

text \<open>\<^verbatim>\<open>siftDown\<close> restores the heap below a node, \<^verbatim>\<open>heapSort\<close> builds the
  heap and pops the greatest entry to the end of the range until the range is
  sorted.\<close>

lemma hkey_swapped:
  assumes "r < hi" "c < hi" "i < hi" "first + hi \<le> length xs"
  shows "hkey (swapped xs (first + r) (first + c)) first i =
           (if i = c then hkey xs first r else if i = r then hkey xs first c else hkey xs first i)"
  using assms by (simp add: hkey_def nth_swapped)

lemma is_child_gt: "is_child r c \<Longrightarrow> r < c"
  by (auto simp: is_child_def)

lemma is_child_inj: "is_child r c \<Longrightarrow> is_child r' c \<Longrightarrow> r = r'"
  by (auto simp: is_child_def)

lemma heap_inI:
  "(\<And>r c. lo \<le> r \<Longrightarrow> c < hi \<Longrightarrow> is_child r c \<Longrightarrow> hkey xs first c \<le> hkey xs first r) \<Longrightarrow>
   heap_in xs first lo hi"
  by (simp add: heap_in_def)

lemma heap_inD:
  "heap_in xs first lo hi \<Longrightarrow> lo \<le> r \<Longrightarrow> c < hi \<Longrightarrow> is_child r c \<Longrightarrow>
   hkey xs first c \<le> hkey xs first r"
  by (simp add: heap_in_def)

lemma heap_exceptD1:
  "heap_except xs first lo hi root \<Longrightarrow> lo \<le> r \<Longrightarrow> r \<noteq> root \<Longrightarrow> c < hi \<Longrightarrow> is_child r c \<Longrightarrow>
   hkey xs first c \<le> hkey xs first r"
  by (simp add: heap_except_def)

lemma heap_exceptD2:
  "heap_except xs first lo hi root \<Longrightarrow> lo \<le> p \<Longrightarrow> is_child p root \<Longrightarrow> c < hi \<Longrightarrow>
   is_child root c \<Longrightarrow> hkey xs first c \<le> hkey xs first p"
  by (simp add: heap_except_def)

lemma siftDown_root_spec:
  assumes "batch_ok xs" "first + hi \<le> length xs" "lo \<le> root" "heap_except xs first lo hi root"
  shows "perm_in first (first + hi) xs (siftDown_root xs root hi first) \<and>
         heap_in (siftDown_root xs root hi first) first lo hi"
  using assms
proof (induction xs root hi first rule: siftDown_root.induct)
  case (1 data root hi first)
  note ok = 1(2) and len = 1(3) and lo = 1(4) and he = 1(5)
  let ?c0 = "2 * root + 1"
  show ?case
  proof (cases "?c0 \<ge> hi")
    case True
    then have res: "siftDown_root data root hi first = data"
      by (subst siftDown_root.simps) (simp add: Let_def)
    have "heap_in data first lo hi"
    proof (rule heap_inI)
      fix r c assume h: "lo \<le> r" "c < hi" "is_child r c"
      then have "r \<noteq> root" using True by (auto simp: is_child_def)
      then show "hkey data first c \<le> hkey data first r"
        using h he by (intro heap_exceptD1 [of data first lo hi root]) auto
    qed
    then show ?thesis unfolding res by (simp add: perm_in_refl)
  next
    case False
    then have c0: "?c0 < hi" by simp
    define c where "c = (if ?c0 + 1 < hi \<and> data_Less data (first + ?c0) (first + ?c0 + 1)
                         then ?c0 + 1 else ?c0)"
    have cb: "c < hi" "root < c" "is_child root c" using c0 by (auto simp: c_def is_child_def)
    have rb: "root < hi" using cb by simp
    have less: "data_Less data (first + i) (first + j) \<longleftrightarrow> hkey data first i < hkey data first j"
      if "i < hi" "j < hi" for i j
      using that len by (simp add: data_Less_key [OF ok] hkey_def)
    have cmax: "hkey data first c' \<le> hkey data first c" if "is_child root c'" "c' < hi" for c'
    proof (cases "?c0 + 1 < hi \<and> data_Less data (first + ?c0) (first + ?c0 + 1)")
      case True
      then have ceq: "c = ?c0 + 1" unfolding c_def by (rule if_P)
      have "hkey data first ?c0 < hkey data first (?c0 + 1)"
        using True less [of ?c0 "?c0 + 1"] c0 by (simp add: add.assoc)
      then show ?thesis using that(1) unfolding ceq by (auto simp: is_child_def)
    next
      case False
      then have ceq: "c = ?c0" unfolding c_def by (rule if_not_P)
      show ?thesis
      proof (cases "c' = ?c0")
        case True
        then show ?thesis unfolding ceq by simp
      next
        case c': False
        then have c'eq: "c' = ?c0 + 1" using that by (auto simp: is_child_def)
        then have "\<not> data_Less data (first + ?c0) (first + ?c0 + 1)" using False that by simp
        then have "\<not> hkey data first ?c0 < hkey data first (?c0 + 1)"
          using less [of ?c0 "?c0 + 1"] c0 c'eq that by (simp add: add.assoc)
        then show ?thesis unfolding ceq c'eq by simp
      qed
    qed
    have unf: "siftDown_root data root hi first =
                 (if \<not> data_Less data (first + root) (first + c) then data
                  else siftDown_root (data_Swap data (first + root) (first + c)) c hi first)"
      by (subst siftDown_root.simps) (simp only: Let_def c_def [symmetric] False if_False)
    show ?thesis
    proof (cases "data_Less data (first + root) (first + c)")
      case nl: False
      then have res: "siftDown_root data root hi first = data"
        unfolding unf by (rule if_P)
      have ge: "hkey data first c \<le> hkey data first root"
        using nl less [of root c] cb rb by simp
      have "heap_in data first lo hi"
      proof (rule heap_inI)
        fix r c' assume h: "lo \<le> r" "c' < hi" "is_child r c'"
        show "hkey data first c' \<le> hkey data first r"
        proof (cases "r = root")
          case True
          then show ?thesis using cmax [of c'] h ge by simp
        next
          case False
          then show ?thesis using h he by (intro heap_exceptD1 [of data first lo hi root]) auto
        qed
      qed
      then show ?thesis unfolding res by (simp add: perm_in_refl)
    next
      case l: True
      then have lt: "hkey data first root < hkey data first c"
        using less [of root c] cb rb by simp
      let ?d = "swapped data (first + root) (first + c)"
      have sw: "data_Swap data (first + root) (first + c) = ?d"
        using cb rb len by (simp add: data_Swap_swapped)
      have res: "siftDown_root data root hi first = siftDown_root ?d c hi first"
        unfolding unf using l sw by simp
      have p0: "perm_in first (first + hi) data ?d"
        using cb rb len by (intro perm_in_step perm_in_refl) auto
      have ok': "batch_ok ?d" using p0 ok by (rule perm_in_batch_ok)
      have hk: "hkey ?d first i =
                  (if i = c then hkey data first root else if i = root then hkey data first c
                   else hkey data first i)" if "i < hi" for i
        using hkey_swapped [OF rb cb(1) that len] by simp
      have he': "heap_except ?d first lo hi c"
        unfolding heap_except_def
      proof (intro conjI allI impI)
        fix r c' assume h: "lo \<le> r \<and> r \<noteq> c \<and> c' < hi \<and> is_child r c'"
        then have rh: "r < hi" using is_child_gt [of r c'] by simp
        show "hkey ?d first c' \<le> hkey ?d first r"
        proof (cases "r = root")
          case True
          show ?thesis
          proof (cases "c' = c")
            case True
            then show ?thesis using \<open>r = root\<close> lt cb rb by (simp add: hk)
          next
            case False
            have "c' \<noteq> root" using h True is_child_gt [of r c'] by auto
            then show ?thesis using \<open>r = root\<close> False cmax [of c'] h cb rb by (simp add: hk)
          qed
        next
          case False
          have cc: "c' \<noteq> c" using is_child_inj [of r c root] h cb False by auto
          show ?thesis
          proof (cases "c' = root")
            case True
            have "hkey data first c \<le> hkey data first r"
              using h True cb he by (intro heap_exceptD2 [of data first lo hi root]) auto
            then show ?thesis using True False h rh cb rb by (simp add: hk)
          next
            case cr: False
            have "hkey data first c' \<le> hkey data first r"
              using h False he by (intro heap_exceptD1 [of data first lo hi root]) auto
            then show ?thesis using cr cc False h rh by (simp add: hk)
          qed
        qed
      next
        fix p c' assume h: "lo \<le> p \<and> is_child p c \<and> c' < hi \<and> is_child c c'"
        then have pr: "p = root" using is_child_inj [of p c root] cb by auto
        have gt: "c < c'" using h is_child_gt by auto
        have "hkey data first c' \<le> hkey data first c"
          using h lo cb he by (intro heap_exceptD1 [of data first lo hi root]) auto
        then show "hkey ?d first c' \<le> hkey ?d first p"
          using pr gt cb rb h by (simp add: hk)
      qed
      have a1: "?c0 = 2 * root + 1" by simp
      have a2: "\<not> hi \<le> ?c0" using False by simp
      have a4: "\<not> \<not> data_Less data (first + root) (first + c)" using l by simp
      have len': "first + hi \<le> length ?d" using len by simp
      have lo': "lo \<le> c" using lo cb by simp
      have "perm_in first (first + hi) ?d (siftDown_root ?d c hi first) \<and>
            heap_in (siftDown_root ?d c hi first) first lo hi"
        by (rule 1(1) [OF a1 a2 c_def a4, unfolded sw, OF ok' len' lo' he'])
      then show ?thesis unfolding res using p0 by (auto intro: perm_in_trans)
    qed
  qed
qed

lemma heapSort_build_spec:
  assumes "batch_ok xs" "first + hi \<le> length xs" "heap_in xs first (i + 1) hi"
  shows "perm_in first (first + hi) xs (heapSort_build xs i hi first) \<and>
         heap_in (heapSort_build xs i hi first) first 0 hi"
  using assms
proof (induction i arbitrary: xs)
  case 0
  have "heap_except xs first 0 hi 0"
    unfolding heap_except_def
  proof (intro conjI allI impI)
    fix r c assume "0 \<le> r \<and> r \<noteq> 0 \<and> c < hi \<and> is_child r c"
    then show "hkey xs first c \<le> hkey xs first r"
      using 0(3) by (intro heap_inD [of xs first "0 + 1" hi]) auto
  next
    fix p c assume "0 \<le> p \<and> is_child p 0 \<and> c < hi \<and> is_child 0 c"
    then show "hkey xs first c \<le> hkey xs first p" using is_child_gt [of p 0] by simp
  qed
  then show ?case
    using siftDown_root_spec [OF 0(1,2), of 0 0] by (simp add: siftDown_def)
next
  case (Suc i)
  have "heap_except xs first (Suc i) hi (Suc i)"
    unfolding heap_except_def
  proof (intro conjI allI impI)
    fix r c assume "Suc i \<le> r \<and> r \<noteq> Suc i \<and> c < hi \<and> is_child r c"
    then show "hkey xs first c \<le> hkey xs first r"
      using Suc(4) by (intro heap_inD [of xs first "Suc i + 1" hi]) auto
  next
    fix p c assume "Suc i \<le> p \<and> is_child p (Suc i) \<and> c < hi \<and> is_child (Suc i) c"
    then show "hkey xs first c \<le> hkey xs first p" using is_child_gt [of p "Suc i"] by simp
  qed
  then have s: "perm_in first (first + hi) xs (siftDown xs (Suc i) hi first) \<and>
         heap_in (siftDown xs (Suc i) hi first) first (Suc i) hi"
    using siftDown_root_spec [OF Suc(2,3), of "Suc i" "Suc i"] by (simp add: siftDown_def)
  let ?d = "siftDown xs (Suc i) hi first"
  have ok': "batch_ok ?d" using s Suc(2) by (auto intro: perm_in_batch_ok)
  have len': "first + hi \<le> length ?d" using s Suc(3) by (auto dest: perm_in_length)
  have "perm_in first (first + hi) ?d (heapSort_build ?d i hi first) \<and>
         heap_in (heapSort_build ?d i hi first) first 0 hi"
    using Suc.IH [OF ok' len'] s by simp
  then show ?case using s by (auto intro: perm_in_trans)
qed

lemma heap_root_max:
  assumes "heap_in xs first 0 n"
  shows "c < n \<Longrightarrow> hkey xs first c \<le> hkey xs first 0"
proof (induction c rule: less_induct)
  case (less c)
  show ?case
  proof (cases "c = 0")
    case True
    then show ?thesis by simp
  next
    case False
    let ?r = "(c - 1) div 2"
    have ch: "is_child ?r c" using False by (auto simp: is_child_def)
    then have "?r < c" by (rule is_child_gt)
    then have "hkey xs first ?r \<le> hkey xs first 0" using less by simp
    moreover have "hkey xs first c \<le> hkey xs first ?r"
      using ch less(2) by (intro heap_inD [OF assms]) auto
    ultimately show ?thesis by simp
  qed
qed

lemma pop_step:
  assumes "pop_inv xs first n (Suc i)"
  shows "perm_in first (first + n) xs (siftDown (data_Swap xs first (first + i)) 0 i first) \<and>
         pop_inv (siftDown (data_Swap xs first (first + i)) 0 i first) first n i"
proof -
  note ok = assms [unfolded pop_inv_def, THEN conjunct1]
  have len: "first + n \<le> length xs" and i: "Suc i \<le> n" and heap: "heap_in xs first 0 (Suc i)"
    and srt: "sorted_in xs (first + Suc i) (first + n)"
    and sep: "\<And>p q. p < Suc i \<Longrightarrow> Suc i \<le> q \<Longrightarrow> q < n \<Longrightarrow> hkey xs first p \<le> hkey xs first q"
    using assms by (auto simp: pop_inv_def)
  let ?d1 = "swapped xs first (first + i)"
  have sw: "data_Swap xs first (first + i) = ?d1" using len i by (simp add: data_Swap_swapped)
  have p1: "perm_in first (first + n) xs ?d1"
    using len i by (intro perm_in_step perm_in_refl) auto
  have ok1: "batch_ok ?d1" using p1 ok by (rule perm_in_batch_ok)
  have len1: "first + i \<le> length ?d1" using len i by simp
  have hk: "hkey ?d1 first k =
              (if k = i then hkey xs first 0 else if k = 0 then hkey xs first i
               else hkey xs first k)" if "k < n" for k
    using hkey_swapped [of 0 n i k first xs] that i len by simp
  have he: "heap_except ?d1 first 0 i 0"
    unfolding heap_except_def
  proof (intro conjI allI impI)
    fix r c assume h: "0 \<le> r \<and> r \<noteq> 0 \<and> c < i \<and> is_child r c"
    then have "r < c" by (auto intro: is_child_gt)
    moreover have "hkey xs first c \<le> hkey xs first r"
      using h by (intro heap_inD [OF heap]) auto
    ultimately show "hkey ?d1 first c \<le> hkey ?d1 first r" using h i by (simp add: hk)
  next
    fix p c assume "0 \<le> p \<and> is_child p 0 \<and> c < i \<and> is_child 0 c"
    then show "hkey ?d1 first c \<le> hkey ?d1 first p" using is_child_gt [of p 0] by simp
  qed
  let ?d2 = "siftDown ?d1 0 i first"
  have s: "perm_in first (first + i) ?d1 ?d2 \<and> heap_in ?d2 first 0 i"
    using siftDown_root_spec [OF ok1 len1 _ he] by (simp add: siftDown_def)
  then have p2: "perm_in first (first + n) ?d1 ?d2"
    using len i by (auto intro: perm_in_mono)
  have p12: "perm_in first (first + n) xs ?d2" using p1 p2 by (auto intro: perm_in_trans)
  have ok2: "batch_ok ?d2" using p12 ok by (rule perm_in_batch_ok)
  have len2: "first + n \<le> length ?d2" using p12 len by (auto dest: perm_in_length)
  have hi2: "hkey ?d2 first k = hkey ?d1 first k" if "i \<le> k" for k
    using s that perm_in_outside [of first "first + i" ?d1 ?d2 "first + k"]
    by (simp add: hkey_def)
  have low: "hkey ?d2 first p \<le> hkey xs first 0" if "p < i" for p
  proof -
    have "\<exists>k'. first \<le> k' \<and> k' < first + i \<and> ?d2 ! (first + p) = ?d1 ! k'"
      using s that by (intro perm_in_range_nth) auto
    then obtain k' where k': "first \<le> k'" "k' < first + i" "?d2 ! (first + p) = ?d1 ! k'"
      by blast
    then have "hkey ?d2 first p = hkey ?d1 first (k' - first)" by (simp add: hkey_def)
    also have "\<dots> = (if k' - first = 0 then hkey xs first i else hkey xs first (k' - first))"
      using k' i by (subst hk) auto
    also have "\<dots> \<le> hkey xs first 0"
      using heap_root_max [OF heap, of i] heap_root_max [OF heap, of "k' - first"] k' by auto
    finally show ?thesis .
  qed
  have srt2: "sorted_in ?d2 (first + i) (first + n)"
  proof (rule sorted_inI)
    fix p q assume h: "first + i \<le> p" "p < q" "q < first + n"
    have qi: "q - first \<noteq> i" "q - first \<noteq> 0" "i \<le> q - first" "q - first < n"
      "first + (q - first) = q"
      using h by auto
    have q: "seq_of (?d2 ! q) = hkey xs first (q - first)"
    proof -
      have "seq_of (?d2 ! q) = hkey ?d2 first (q - first)" using qi(5) by (simp only: hkey_def)
      also have "\<dots> = hkey ?d1 first (q - first)" by (rule hi2 [OF qi(3)])
      also have "\<dots> = hkey xs first (q - first)" using hk [OF qi(4)] qi(1,2) by auto
      finally show ?thesis .
    qed
    show "seq_of (?d2 ! p) \<le> seq_of (?d2 ! q)"
    proof (cases "p = first + i")
      case True
      then have "seq_of (?d2 ! p) = hkey xs first 0"
        using i hi2 [of i] hk [of i] by (simp add: hkey_def)
      then show ?thesis using q sep [of 0 "q - first"] h True by simp
    next
      case False
      then have pi: "p - first \<noteq> i" "p - first \<noteq> 0" "i \<le> p - first" "p - first < n"
        "first + (p - first) = p"
        using h by auto
      have "seq_of (?d2 ! p) = hkey ?d2 first (p - first)" using pi(5) by (simp only: hkey_def)
      also have "\<dots> = hkey ?d1 first (p - first)" by (rule hi2 [OF pi(3)])
      also have "\<dots> = hkey xs first (p - first)" using hk [OF pi(4)] pi(1,2) by auto
      finally have "seq_of (?d2 ! p) = hkey xs first (p - first)" .
      moreover have "seq_of (xs ! p) \<le> seq_of (xs ! q)"
        using h False by (intro sorted_inD [OF srt]) auto
      ultimately show ?thesis using q h by (simp add: hkey_def)
    qed
  qed
  have sep2: "\<forall>p q. p < i \<and> i \<le> q \<and> q < n \<longrightarrow> hkey ?d2 first p \<le> hkey ?d2 first q"
  proof (intro allI impI)
    fix p q assume h: "p < i \<and> i \<le> q \<and> q < n"
    have "hkey xs first 0 \<le> hkey ?d2 first q"
    proof (cases "q = i")
      case True
      then show ?thesis using h hi2 [of i] hk [of i] by simp
    next
      case False
      then show ?thesis using h hi2 [of q] hk [of q] sep [of 0 q] by simp
    qed
    then show "hkey ?d2 first p \<le> hkey ?d2 first q" using low [of p] h by simp
  qed
  show ?thesis
    unfolding sw pop_inv_def using p12 ok2 len2 i s srt2 sep2 by simp
qed

lemma heapSort_pop_spec:
  assumes "pop_inv xs first n (Suc i)"
  shows "perm_in first (first + n) xs (heapSort_pop xs i 0 first) \<and>
         sorted_in (heapSort_pop xs i 0 first) first (first + n)"
  using assms
proof (induction i arbitrary: xs)
  case 0
  show ?case using pop_step [OF 0] by (simp add: pop_inv_def)
next
  case (Suc i)
  note st = pop_step [OF Suc.prems]
  let ?d = "siftDown (data_Swap xs first (first + Suc i)) 0 (Suc i) first"
  have "perm_in first (first + n) ?d (heapSort_pop ?d i 0 first) \<and>
        sorted_in (heapSort_pop ?d i 0 first) first (first + n)"
    using Suc.IH st by simp
  then show ?case using st by (auto intro: perm_in_trans)
qed

lemma heapSort_spec:
  assumes "batch_ok xs" "a \<le> b" "b \<le> length xs"
  shows "perm_in a b xs (heapSort xs a b) \<and> sorted_in (heapSort xs a b) a b"
proof -
  let ?hi = "b - a"
  let ?d = "heapSort_build xs ((?hi - 1) div 2) ?hi a"
  have len: "a + ?hi \<le> length xs" using assms by simp
  have "heap_in xs a ((?hi - 1) div 2 + 1) ?hi"
    by (rule heap_inI) (auto simp: is_child_def)
  then have b: "perm_in a (a + ?hi) xs ?d \<and> heap_in ?d a 0 ?hi"
    by (rule heapSort_build_spec [OF assms(1) len])
  then have pb: "perm_in a b xs ?d" using assms by simp
  show ?thesis
  proof (cases "?hi = 0")
    case True
    then have "sorted_in (heapSort xs a b) a b" by (auto simp: sorted_in_def)
    moreover have "heapSort xs a b = ?d" using True by (simp add: heapSort_def Let_def)
    ultimately show ?thesis using pb by simp
  next
    case False
    have ok': "batch_ok ?d" using pb assms(1) by (rule perm_in_batch_ok)
    have len': "a + ?hi \<le> length ?d" using pb len by (auto dest: perm_in_length)
    have e: "Suc (?hi - 1) = ?hi" using False by simp
    have "pop_inv ?d a ?hi (Suc (?hi - 1))"
      unfolding e pop_inv_def using ok' len' b by (auto simp: sorted_in_def)
    then have "perm_in a (a + ?hi) ?d (heapSort_pop ?d (?hi - 1) 0 a) \<and>
               sorted_in (heapSort_pop ?d (?hi - 1) 0 a) a (a + ?hi)"
      by (rule heapSort_pop_spec)
    then show ?thesis using False pb assms by (auto simp: heapSort_def Let_def intro: perm_in_trans)
  qed
qed

subsubsection \<open>The quicksort\<close>

text \<open>\<^verbatim>\<open>pdqsort\<close> sorts its range and moves nothing outside it, for every
  limit and every value of its flags.\<close>

lemma inv_left_sub:
  "inv_left xs a b \<Longrightarrow> b' \<le> b \<Longrightarrow> inv_left xs a b'"
  by (auto simp: inv_left_def)

lemma perm_in_pred:
  assumes "perm_in a b xs ys" "\<forall>k. a \<le> k \<and> k < b \<longrightarrow> P (xs ! k)" "a \<le> k" "k < b"
  shows "P (ys ! k)"
  using perm_in_range_nth [OF assms(1,3,4)] assms(2) by auto

lemma sorted_in_join:
  assumes "sorted_in r a mid" "sorted_in r (mid + 1) b"
    and "\<forall>k. a \<le> k \<and> k < mid \<longrightarrow> seq_of (r ! k) \<le> seq_of (r ! mid)"
    and "\<forall>k. mid < k \<and> k < b \<longrightarrow> seq_of (r ! mid) \<le> seq_of (r ! k)"
  shows "sorted_in r a b"
proof (rule sorted_inI)
  fix i j assume h: "a \<le> i" "i < j" "j < b"
  consider "j < mid" | "j = mid" | "i < mid" "mid < j" | "i = mid" | "mid < i"
    using h by linarith
  then show "seq_of (r ! i) \<le> seq_of (r ! j)"
  proof cases
    case 1
    then show ?thesis using h by (intro sorted_inD [OF assms(1)]) auto
  next
    case 2
    then show ?thesis using h assms(3) by auto
  next
    case 3
    then have "seq_of (r ! i) \<le> seq_of (r ! mid)" "seq_of (r ! mid) \<le> seq_of (r ! j)"
      using h assms(3,4) by auto
    then show ?thesis by simp
  next
    case 4
    then show ?thesis using h assms(4) by auto
  next
    case 5
    then show ?thesis using h by (intro sorted_inD [OF assms(2)]) auto
  qed
qed

lemma pdqsort_correct:
  assumes "batch_ok xs" "a \<le> b" "b \<le> length xs" "inv_left xs a b"
  shows "perm_in a b xs (pdqsort xs a b limit wb wp) \<and>
         sorted_in (pdqsort xs a b limit wb wp) a b"
  using assms
proof (induction xs a b limit wb wp rule: pdqsort.induct)
  case (1 data a b limit wb wp)
  note ok = \<open>batch_ok data\<close> and ab = \<open>a \<le> b\<close> and len = \<open>b \<le> length data\<close>
    and il = \<open>inv_left data a b\<close>
  show ?case
  proof (cases "b - a \<le> 12")
    case True
    then have "pdqsort data a b limit wb wp = insertionSort data a b"
      by (subst pdqsort.simps) simp
    then show ?thesis using insertionSort_correct [OF ok len, of a] by simp
  next
    case nb: False
    then have altb: "a < b" by simp
    show ?thesis
    proof (cases "limit = 0")
      case True
      then have "pdqsort data a b limit wb wp = heapSort data a b"
        using nb by (subst pdqsort.simps) simp
      then show ?thesis using heapSort_spec [OF ok ab len] by simp
    next
      case nl: False
      obtain d l' pv srt where pp: "pdqsort_pivot data a b limit wb wp = (d, l', pv, srt)"
        by (metis prod_cases4)
      note ps = pdqsort_pivot_spec [OF ok altb len il pp]
      have pd: "perm_in a b data d" and pvb: "a \<le> pv" "pv < b" using ps by auto
      have okd: "batch_ok d" using pd ok by (rule perm_in_batch_ok)
      have lend: "b \<le> length d" using pd len by (auto dest: perm_in_length)
      have ild: "inv_left d a b" using pd il by (rule inv_left_perm)
      show ?thesis
      proof (cases srt)
        case True
        then have "pdqsort data a b limit wb wp = d"
          using nb nl pp by (subst pdqsort.simps) simp
        then show ?thesis using ps True by simp
      next
        case ns: False
        show ?thesis
        proof (cases "0 < a \<and> \<not> data_Less d (a - 1) pv")
          case eq: True
          obtain d' mid where pe: "partitionEqual d a b pv = (d', mid)"
            by (cases "partitionEqual d a b pv") auto
          note es = partitionEqual_spec [OF okd altb lend pvb pe]
          have unf: "pdqsort data a b limit wb wp = pdqsort d' mid b l' wb wp"
            using nb nl pp ns eq pe by (subst pdqsort.simps) simp
          have pd': "perm_in a b d d'" and midb: "a < mid" "mid \<le> b" using es by auto
          have pdd: "perm_in a b data d'" using pd pd' by (auto intro: perm_in_trans)
          have okd': "batch_ok d'" using pdd ok by (rule perm_in_batch_ok)
          have lend': "b \<le> length d'" using pdd len by (auto dest: perm_in_length)
          have pmin: "seq_of (d ! pv) \<le> seq_of (d ! k)" if "a \<le> k" "k < b" for k
          proof -
            have "a - 1 < length d" "pv < length d" using altb lend pvb by auto
            then have "\<not> seq_of (d ! (a - 1)) < seq_of (d ! pv)"
              using eq data_Less_key [OF okd, of "a - 1" pv] by simp
            moreover have "seq_of (d ! (a - 1)) \<le> seq_of (d ! k)"
              using ild that eq by (auto simp: inv_left_def)
            ultimately show ?thesis by simp
          qed
          have pmin': "seq_of (d ! pv) \<le> seq_of (d' ! k)" if "a \<le> k" "k < b" for k
            using perm_in_pred [OF pd', of "\<lambda>x. seq_of (d ! pv) \<le> seq_of x" k] pmin that by auto
          have il': "inv_left d' mid b"
            unfolding inv_left_def
          proof (intro allI impI)
            fix k assume h: "0 < mid \<and> mid \<le> k \<and> k < b"
            have "seq_of (d' ! (mid - 1)) \<le> seq_of (d ! pv)" using es midb by auto
            moreover have "seq_of (d ! pv) < seq_of (d' ! k)" using es h by auto
            ultimately show "seq_of (d' ! (mid - 1)) \<le> seq_of (d' ! k)" by simp
          qed
          let ?r = "pdqsort d' mid b l' wb wp"
          have ih: "perm_in mid b d' ?r \<and> sorted_in ?r mid b"
            by (rule 1(1) [OF nb nl pp [symmetric] refl refl _ eq pe [symmetric] okd' midb(2) lend' il'])
               (simp add: ns)
          then have pr: "perm_in a b d' ?r" using midb lend' by (auto intro: perm_in_mono)
          have low: "seq_of (?r ! k) = seq_of (d ! pv)" if "a \<le> k" "k < mid" for k
          proof -
            have "?r ! k = d' ! k" using ih that perm_in_outside [of mid b d' ?r k] by simp
            moreover have "seq_of (d' ! k) \<le> seq_of (d ! pv)" using es that by auto
            moreover have "seq_of (d ! pv) \<le> seq_of (d' ! k)" using pmin' [of k] that midb by simp
            ultimately show ?thesis by simp
          qed
          have high: "seq_of (d ! pv) < seq_of (?r ! k)" if "mid \<le> k" "k < b" for k
            using perm_in_pred [of mid b d' ?r "\<lambda>x. seq_of (d ! pv) < seq_of x" k] ih es that
            by auto
          have "sorted_in ?r a b"
          proof (rule sorted_inI)
            fix i j assume h: "a \<le> i" "i < j" "j < b"
            consider "j < mid" | "i < mid" "mid \<le> j" | "mid \<le> i" using h by linarith
            then show "seq_of (?r ! i) \<le> seq_of (?r ! j)"
            proof cases
              case 1
              then show ?thesis using low [of i] low [of j] h by simp
            next
              case 2
              then show ?thesis using low [of i] high [of j] h by simp
            next
              case 3
              then show ?thesis using ih h by (intro sorted_inD [of ?r mid b]) auto
            qed
          qed
          then show ?thesis unfolding unf using pdd pr by (auto intro: perm_in_trans)
        next
          case neq: False
          obtain d' mid ap where pt: "partition' d a b pv = (d', mid, ap)"
            by (metis prod_cases3)
          note ts = partition_spec [OF okd altb lend pvb pt]
          have pd': "perm_in a b d d'" and midb: "a \<le> mid" "mid < b" using ts by auto
          have L: "\<forall>k. a \<le> k \<and> k < mid \<longrightarrow> seq_of (d' ! k) \<le> seq_of (d' ! mid)"
            using ts by (auto intro: less_imp_le)
          have R: "\<forall>k. mid + 1 \<le> k \<and> k < b \<longrightarrow> seq_of (d' ! mid) \<le> seq_of (d' ! k)"
            using ts by auto
          have pdd: "perm_in a b data d'" using pd pd' by (auto intro: perm_in_trans)
          have okd': "batch_ok d'" using pdd ok by (rule perm_in_batch_ok)
          have lend': "b \<le> length d'" using pdd len by (auto dest: perm_in_length)
          have ild': "inv_left d' a b" using pdd il by (rule inv_left_perm)
          have ilL: "inv_left d' a mid" using ild' midb by (auto intro: inv_left_sub)
          have ilR: "inv_left d' (mid + 1) b" using R by (auto simp: inv_left_def)
          show ?thesis
          proof (cases "mid - a < b - mid")
            case lf: True
            let ?r1 = "pdqsort d' a mid l' True True"
            let ?r = "pdqsort ?r1 (mid + 1) b l' ((b - a) div 8 \<le> mid - a) ap"
            have unf: "pdqsort data a b limit wb wp = ?r"
              by (subst pdqsort.simps)
                 (simp only: nb nl pp ns neq pt lf if_False if_True prod.case simp_thms)
            have ih1: "perm_in a mid d' ?r1 \<and> sorted_in ?r1 a mid"
              using midb lend'
              by (intro 1(2) [OF nb nl pp [symmetric] refl refl _ neq pt [symmetric] refl lf okd' _ _ ilL])
                 (auto simp: ns)
            have ok1: "batch_ok ?r1" using ih1 okd' by (auto intro: perm_in_batch_ok)
            have len1: "b \<le> length ?r1" using ih1 lend' by (auto dest: perm_in_length)
            have out1: "?r1 ! k = d' ! k" if "mid \<le> k" for k
              using ih1 that perm_in_outside [of a mid d' ?r1 k] by simp
            have il1: "inv_left ?r1 (mid + 1) b"
              using R out1 by (auto simp: inv_left_def)
            have ih2: "perm_in (mid + 1) b ?r1 ?r \<and> sorted_in ?r (mid + 1) b"
              using midb len1
              by (intro 1(3) [OF nb nl pp [symmetric] refl refl _ neq pt [symmetric] refl lf ok1 _ _ il1])
                 (auto simp: ns)
            have out2: "?r ! k = ?r1 ! k" if "k \<le> mid" for k
              using ih2 that perm_in_outside [of "mid + 1" b ?r1 ?r k] by simp
            have p1: "perm_in a b d' ?r1" using ih1 midb lend' by (auto intro: perm_in_mono)
            have p2: "perm_in a b ?r1 ?r" using ih2 midb len1 by (auto intro: perm_in_mono)
            have rm: "?r ! mid = d' ! mid" using out1 [of mid] out2 [of mid] by simp
            have s1: "sorted_in ?r a mid"
            proof (rule sorted_in_outside [of ?r1 a mid b ?r])
              show "sorted_in ?r1 a mid" using ih1 by simp
              show "perm_in mid b ?r1 ?r" using ih2 len1 by (auto intro: perm_in_mono)
            qed
            have Lr: "\<forall>k. a \<le> k \<and> k < mid \<longrightarrow> seq_of (?r ! k) \<le> seq_of (?r ! mid)"
            proof (intro allI impI)
              fix k assume h: "a \<le> k \<and> k < mid"
              have "seq_of (?r1 ! k) \<le> seq_of (d' ! mid)"
                using perm_in_pred [of a mid d' ?r1 "\<lambda>x. seq_of x \<le> seq_of (d' ! mid)" k] ih1 L h
                by auto
              then show "seq_of (?r ! k) \<le> seq_of (?r ! mid)" using out2 [of k] h rm by simp
            qed
            have Rr: "\<forall>k. mid < k \<and> k < b \<longrightarrow> seq_of (?r ! mid) \<le> seq_of (?r ! k)"
            proof (intro allI impI)
              fix k assume h: "mid < k \<and> k < b"
              have "\<forall>k. mid + 1 \<le> k \<and> k < b \<longrightarrow> seq_of (d' ! mid) \<le> seq_of (?r1 ! k)"
                using R out1 by auto
              then have "seq_of (d' ! mid) \<le> seq_of (?r ! k)"
                using perm_in_pred [of "mid + 1" b ?r1 ?r "\<lambda>x. seq_of (d' ! mid) \<le> seq_of x" k] ih2 h
                by auto
              then show "seq_of (?r ! mid) \<le> seq_of (?r ! k)" using rm by simp
            qed
            have "sorted_in ?r a b" using s1 ih2 Lr Rr by (intro sorted_in_join [of ?r a mid b]) auto
            then show ?thesis unfolding unf using pdd p1 p2 by (auto intro: perm_in_trans)
          next
            case rf: False
            let ?r1 = "pdqsort d' (mid + 1) b l' True True"
            let ?r = "pdqsort ?r1 a mid l' ((b - a) div 8 \<le> b - mid) ap"
            have unf: "pdqsort data a b limit wb wp = ?r"
              by (subst pdqsort.simps)
                 (simp only: nb nl pp ns neq pt rf if_False if_True prod.case simp_thms)
            have ih1: "perm_in (mid + 1) b d' ?r1 \<and> sorted_in ?r1 (mid + 1) b"
              using midb lend'
              by (intro 1(4) [OF nb nl pp [symmetric] refl refl _ neq pt [symmetric] refl rf okd' _ _ ilR])
                 (auto simp: ns)
            have ok1: "batch_ok ?r1" using ih1 okd' by (auto intro: perm_in_batch_ok)
            have len1: "b \<le> length ?r1" using ih1 lend' by (auto dest: perm_in_length)
            have out1: "?r1 ! k = d' ! k" if "k \<le> mid" for k
              using ih1 that perm_in_outside [of "mid + 1" b d' ?r1 k] by simp
            have il1: "inv_left ?r1 a mid"
              using ilL out1 by (auto simp: inv_left_def)
            have ih2: "perm_in a mid ?r1 ?r \<and> sorted_in ?r a mid"
              using midb len1
              by (intro 1(5) [OF nb nl pp [symmetric] refl refl _ neq pt [symmetric] refl rf ok1 _ _ il1])
                 (auto simp: ns)
            have out2: "?r ! k = ?r1 ! k" if "mid \<le> k" for k
              using ih2 that perm_in_outside [of a mid ?r1 ?r k] by simp
            have p1: "perm_in a b d' ?r1" using ih1 midb lend' by (auto intro: perm_in_mono)
            have p2: "perm_in a b ?r1 ?r" using ih2 midb len1 by (auto intro: perm_in_mono)
            have rm: "?r ! mid = d' ! mid" using out1 [of mid] out2 [of mid] by simp
            have s2: "sorted_in ?r (mid + 1) b"
            proof (rule sorted_inI)
              fix i j assume h: "mid + 1 \<le> i" "i < j" "j < b"
              have "seq_of (?r1 ! i) \<le> seq_of (?r1 ! j)"
                using ih1 h by (intro sorted_inD [of ?r1 "mid + 1" b]) auto
              then show "seq_of (?r ! i) \<le> seq_of (?r ! j)"
                using out2 [of i] out2 [of j] h by simp
            qed
            have Lr: "\<forall>k. a \<le> k \<and> k < mid \<longrightarrow> seq_of (?r ! k) \<le> seq_of (?r ! mid)"
            proof (intro allI impI)
              fix k assume h: "a \<le> k \<and> k < mid"
              have "\<forall>k. a \<le> k \<and> k < mid \<longrightarrow> seq_of (?r1 ! k) \<le> seq_of (d' ! mid)"
                using L out1 by auto
              then have "seq_of (?r ! k) \<le> seq_of (d' ! mid)"
                using perm_in_pred [of a mid ?r1 ?r "\<lambda>x. seq_of x \<le> seq_of (d' ! mid)" k] ih2 h
                by auto
              then show "seq_of (?r ! k) \<le> seq_of (?r ! mid)" using rm by simp
            qed
            have Rr: "\<forall>k. mid < k \<and> k < b \<longrightarrow> seq_of (?r ! mid) \<le> seq_of (?r ! k)"
            proof (intro allI impI)
              fix k assume h: "mid < k \<and> k < b"
              have "seq_of (d' ! mid) \<le> seq_of (?r1 ! k)"
                using perm_in_pred [of "mid + 1" b d' ?r1 "\<lambda>x. seq_of (d' ! mid) \<le> seq_of x" k]
                  ih1 R h by auto
              then show "seq_of (?r ! mid) \<le> seq_of (?r ! k)" using out2 [of k] h rm by simp
            qed
            have "sorted_in ?r a b" using s2 ih2 Lr Rr by (intro sorted_in_join [of ?r a mid b]) auto
            then show ?thesis unfolding unf using pdd p1 p2 by (auto intro: perm_in_trans)
          qed
        qed
      qed
    qed
  qed
qed

subsubsection \<open>The sort of a batch\<close>

lemma filter_key_distinct:
  "distinct (map f xs) \<Longrightarrow> k \<in> set xs \<Longrightarrow> filter (\<lambda>x. f k = f x) xs = [k]"
proof (induction xs)
  case Nil
  then show ?case by simp
next
  case (Cons a xs)
  show ?case
  proof (cases "k = a")
    case True
    have "filter (\<lambda>x. f a = f x) xs = []"
      using Cons.prems(1) by (auto simp: filter_empty_conv)
    with True show ?thesis by simp
  next
    case False
    then have k: "k \<in> set xs" using Cons.prems(2) by simp
    have "f a \<notin> f ` set xs" using Cons.prems(1) by simp
    then have "f k \<noteq> f a" using k by (metis imageI)
    then show ?thesis using Cons k by simp
  qed
qed

lemma sort_Sort_correct:
  assumes "batch_ok xs"
  shows "mset (sort_Sort xs) = mset xs \<and> sorted (map seq_of (sort_Sort xs))"
proof (cases "length xs \<le> 1")
  case True
  then have "sort_Sort xs = xs" by (simp add: sort_Sort_def Len_def)
  moreover have "sorted (map seq_of xs)" using True by (cases xs) auto
  ultimately show ?thesis by simp
next
  case False
  let ?r = "pdqsort xs 0 (length xs) (bits_Len (length xs)) True True"
  have r: "sort_Sort xs = ?r" using False by (simp add: sort_Sort_def Len_def Let_def)
  have il: "inv_left xs 0 (length xs)" by (simp add: inv_left_def)
  have c: "perm_in 0 (length xs) xs ?r \<and> sorted_in ?r 0 (length xs)"
    by (rule pdqsort_correct [OF assms _ _ il]) simp_all
  then have len: "length ?r = length xs" by (auto dest: perm_in_length)
  have "sorted (map seq_of ?r)" using c len by (intro sorted_in_whole) simp
  then show ?thesis unfolding r using c by (auto dest: perm_in_mset)
qed

lemma sort_Sort_small:
  assumes "batch_ok xs" "length xs \<le> 12"
  shows "sort_Sort xs = sort_key seq_of xs"
proof (cases "length xs \<le> 1")
  case True
  then have "sort_Sort xs = xs" by (simp add: sort_Sort_def Len_def)
  moreover have "sort_key seq_of xs = xs" using True by (cases xs) auto
  ultimately show ?thesis by simp
next
  case False
  have "pdqsort xs 0 (length xs) (bits_Len (length xs)) True True =
        insertionSort xs 0 (length xs)"
    using assms(2) by (subst pdqsort.simps) simp
  then show ?thesis
    using False insertionSort_whole [OF assms(1)] by (simp add: sort_Sort_def Len_def Let_def)
qed

text \<open>
  Claim C2, as the code has it. On a batch whose entries carry log entries
  \<^verbatim>\<open>massageChanges\<close> returns, and what it returns is a permutation of the
  batch in ascending order of \<^verbatim>\<open>Sequence\<close>: the sequences of the result are
  those of the batch, sorted. For a batch of at most twelve entries, which the
  library sorts by insertion, and for a batch whose sequences are distinct,
  the result is the stable sort of the batch. For a longer batch nothing is
  said of the order of entries with equal sequences: the sort is
  \<^verbatim>\<open>sort.Sort\<close>, not \<^verbatim>\<open>sort.Stable\<close>.
\<close>

theorem massageChanges_sorts:
  assumes ok: "batch_ok changes"
  shows "\<exists>out. massageChanges changes = Inr out \<and>
           mset out = mset changes \<and> sorted (map seq_of out) \<and>
           map seq_of out = sort (map seq_of changes) \<and>
           (length changes \<le> 12 \<or> distinct (map seq_of changes) \<longrightarrow>
              out = sort_key seq_of changes)"
proof -
  let ?out = "sort_Sort changes"
  have r: "massageChanges changes = Inr ?out" using ok by (simp add: massageChanges_def)
  have m: "mset ?out = mset changes" and srt: "sorted (map seq_of ?out)"
    using sort_Sort_correct [OF ok] by simp_all
  have mk: "mset (map seq_of ?out) = mset (map seq_of changes)" using m by simp
  then have keys: "map seq_of ?out = sort (map seq_of changes)"
    using srt by (metis properties_for_sort)
  have stable: "?out = sort_key seq_of changes" if d: "distinct (map seq_of changes)"
  proof -
    have "distinct (map seq_of ?out)"
      using d mk by (metis mset_eq_imp_distinct_iff)
    then have a: "\<forall>k\<in>set ?out. filter (\<lambda>x. seq_of k = seq_of x) ?out = [k]"
      by (simp add: filter_key_distinct)
    have "set ?out = set changes" using m by (rule mset_eq_setD)
    then have b: "\<forall>k\<in>set ?out. filter (\<lambda>x. seq_of k = seq_of x) changes = [k]"
      using d by (simp add: filter_key_distinct)
    have "sort_key seq_of changes = ?out"
      using m srt a b by (intro properties_for_sort_key) auto
    then show ?thesis by simp
  qed
  have "length changes \<le> 12 \<or> distinct (map seq_of changes) \<longrightarrow>
          ?out = sort_key seq_of changes"
    using stable sort_Sort_small [OF ok] by blast
  then show ?thesis using r m srt keys by blast
qed

text \<open>Changes with the sequences 3, 1, 2, drained in one cycle from a channel
  that then runs empty: the sort returns them in the order 1, 2, 3, and
  committed to an empty log they are stored in that order.\<close>

theorem massageChanges_sorts_witness:
  "massageChanges [demo_entry 3, demo_entry 1, demo_entry 2] =
     Inr [demo_entry 1, demo_entry 2, demo_entry 3] \<and>
   readChanges_' demo_AddRaw demo_channels ''ch''
     [Received (demo_entry 3), Received (demo_entry 1), Received (demo_entry 2)] [] =
     Returned (Some [demo_entry 3, demo_entry 1, demo_entry 2], [], []) \<and>
   outcome (addToChangeLog_callback demo_channels (demo_config 5)
              (demo_captured [demo_entry 1, demo_entry 2, demo_entry 3]) [] 0) =
     Inr ([1, 2, 3], Raw, None :: unit option)"
proof -
  let ?changes = "[demo_entry 3, demo_entry 1, demo_entry 2] :: LogEntry list changeEntry list"
  let ?sorted = "[demo_entry 1, demo_entry 2, demo_entry 3] :: LogEntry list changeEntry list"
  have ok: "batch_ok ?changes" by (simp add: batch_ok_def demo_entry_def)
  have k: "sort_key seq_of ?changes = ?sorted"
    by (simp add: seq_of_def demo_entry_def word_le_nat_alt)
  obtain out where o: "massageChanges ?changes = Inr out"
    "length ?changes \<le> 12 \<or> distinct (map seq_of ?changes) \<longrightarrow>
       out = sort_key seq_of ?changes"
    using massageChanges_sorts [OF ok] by blast
  have "out = sort_key seq_of ?changes" using o(2) by simp
  then have a: "massageChanges ?changes = Inr ?sorted" using o(1) unfolding k by simp
  have b: "readChanges_' demo_AddRaw demo_channels ''ch''
     [Received (demo_entry 3), Received (demo_entry 1), Received (demo_entry 2)] [] =
     Returned (Some ?changes, [], [])"
    by (simp add: readChanges_'_def demo_entry_def kChannelLogWriterQueueLength_def)
  have c: "outcome (addToChangeLog_callback demo_channels (demo_config 5)
              (demo_captured ?sorted) [] 0) = Inr ([1, 2, 3], Raw, None :: unit option)"
    by (simp add: addToChangeLog_callback_def demo_defs encodeChannelLog_def)
  show ?thesis using a b c by (intro conjI)
qed

text \<open>
  Claim C2, as stated, fails in its tie-break. Thirteen changes are drained
  in one cycle, with the sequences 12, 11, 10, 9, 8, 7, 7, 6, 5, 4, 3, 2, 1 in
  the order of arrival; the two changes with the sequence 7 are for the
  documents f and g, f arriving first. \<^verbatim>\<open>massageChanges\<close> returns g before
  f, where the stable sort of the batch has f before g.
\<close>

theorem massageChanges_not_stable:
  "readChanges_' demo_AddRaw demo_channels ''ch''
     [Received (demo_change 12 ''a''), Received (demo_change 11 ''b''),
      Received (demo_change 10 ''c''), Received (demo_change 9 ''d''),
      Received (demo_change 8 ''e''), Received (demo_change 7 ''f''),
      Received (demo_change 7 ''g''), Received (demo_change 6 ''h''),
      Received (demo_change 5 ''i''), Received (demo_change 4 ''j''),
      Received (demo_change 3 ''k''), Received (demo_change 2 ''l''),
      Received (demo_change 1 ''m'')] [] =
   Returned (Some
     [demo_change 12 ''a'', demo_change 11 ''b'', demo_change 10 ''c'', demo_change 9 ''d'',
      demo_change 8 ''e'', demo_change 7 ''f'', demo_change 7 ''g'', demo_change 6 ''h'',
      demo_change 5 ''i'', demo_change 4 ''j'', demo_change 3 ''k'', demo_change 2 ''l'',
      demo_change 1 ''m''], [], []) \<and>
   massageChanges
     [demo_change 12 ''a'', demo_change 11 ''b'', demo_change 10 ''c'', demo_change 9 ''d'',
      demo_change 8 ''e'', demo_change 7 ''f'', demo_change 7 ''g'', demo_change 6 ''h'',
      demo_change 5 ''i'', demo_change 4 ''j'', demo_change 3 ''k'', demo_change 2 ''l'',
      demo_change 1 ''m''] =
   Inr
     [demo_change 1 ''m'', demo_change 2 ''l'', demo_change 3 ''k'', demo_change 4 ''j'',
      demo_change 5 ''i'', demo_change 6 ''h'', demo_change 7 ''g'', demo_change 7 ''f'',
      demo_change 8 ''e'', demo_change 9 ''d'', demo_change 10 ''c'', demo_change 11 ''b'',
      demo_change 12 ''a''] \<and>
   sort_key seq_of
     [demo_change 12 ''a'', demo_change 11 ''b'', demo_change 10 ''c'', demo_change 9 ''d'',
      demo_change 8 ''e'', demo_change 7 ''f'', demo_change 7 ''g'', demo_change 6 ''h'',
      demo_change 5 ''i'', demo_change 4 ''j'', demo_change 3 ''k'', demo_change 2 ''l'',
      demo_change 1 ''m''] =
     [demo_change 1 ''m'', demo_change 2 ''l'', demo_change 3 ''k'', demo_change 4 ''j'',
      demo_change 5 ''i'', demo_change 6 ''h'', demo_change 7 ''f'', demo_change 7 ''g'',
      demo_change 8 ''e'', demo_change 9 ''d'', demo_change 10 ''c'', demo_change 11 ''b'',
      demo_change 12 ''a'']"
  by code_simp

subsection \<open>The fan-out to the channels\<close>

lemma flag_bits:
  fixes x r :: "8 word"
  shows "(x OR r) AND NOT r = x AND NOT r" "(x AND NOT r) AND NOT r = x AND NOT r"
    "(x AND NOT r) OR r = x OR r" "(x OR r) OR r = x OR r"
  by (auto simp: bit_eq_iff bit_simps)

lemma Removed_idem [simp]:
  "clear_Removed ch (set_Removed ch e) = clear_Removed ch e"
  "clear_Removed ch (clear_Removed ch e) = clear_Removed ch e"
  "set_Removed ch (clear_Removed ch e) = set_Removed ch e"
  "set_Removed ch (set_Removed ch e) = set_Removed ch e"
  "Sequence (set_Removed ch e) = Sequence e"
  "Sequence (clear_Removed ch e) = Sequence e"
  by (simp_all add: set_Removed_def clear_Removed_def flag_bits)

lemma clear_Removed_eq:
  assumes "clear_Removed ch a = clear_Removed ch b"
  shows "set_Removed ch a = set_Removed ch b" "Sequence a = Sequence b"
proof -
  have "set_Removed ch (clear_Removed ch a) = set_Removed ch (clear_Removed ch b)"
    using assms by simp
  then show "set_Removed ch a = set_Removed ch b" by simp
  have "Sequence (clear_Removed ch a) = Sequence (clear_Removed ch b)"
    using assms by simp
  then show "Sequence a = Sequence b" by simp
qed

lemma sent_to_addToChangeLog:
  "sent_to (addToChangeLog w channel e parent) c =
     (if c = channel then sent_to w c @ [pending_append e parent] else sent_to w c)"
  by (auto simp: sent_to_def addToChangeLog_def logWriterForChannel_def addChange_def
      pending_append_def split: option.splits)

lemma addToChangeLogs_loop_sent:
  assumes "distinct (map fst cm)"
    and "addToChangeLogs_loop ch cm e parent w = (e1, w1)"
  shows "clear_Removed ch e1 = clear_Removed ch e \<and>
         sent_to w1 c = sent_to w c @
           (case map_of cm c of
              None \<Rightarrow> []
            | Some None \<Rightarrow> [pending_append (clear_Removed ch e) parent]
            | Some (Some r) \<Rightarrow>
                (if Seq r = Sequence e then [pending_append (set_Removed ch e) parent] else []))"
  using assms
proof (induction cm arbitrary: e w)
  case Nil
  then show ?case by simp
next
  case (Cons a cm)
  obtain channel removal where a: "a = (channel, removal)" by (cases a)
  have d: "distinct (map fst cm)" and nin: "map_of cm channel = None"
    using Cons.prems(1) a by (auto simp: map_of_eq_None_iff)
  show ?case
  proof (cases removal)
    case None
    let ?e' = "clear_Removed ch e"
    have run: "addToChangeLogs_loop ch cm ?e' parent (addToChangeLog w channel ?e' parent) = (e1, w1)"
      using Cons.prems(2) a None by (simp add: clear_Removed_def Let_def)
    from Cons.IH [OF d run] have
      ih: "clear_Removed ch e1 = clear_Removed ch ?e'"
        "sent_to w1 c = sent_to (addToChangeLog w channel ?e' parent) c @
           (case map_of cm c of
              None \<Rightarrow> []
            | Some None \<Rightarrow> [pending_append (clear_Removed ch ?e') parent]
            | Some (Some r) \<Rightarrow>
                (if Seq r = Sequence ?e' then [pending_append (set_Removed ch ?e') parent] else []))"
      by simp_all
    show ?thesis using ih a None nin
      by (auto simp: sent_to_addToChangeLog split: option.splits)
  next
    case (Some r)
    show ?thesis
    proof (cases "Seq r = Sequence e")
      case False
      have run: "addToChangeLogs_loop ch cm e parent w = (e1, w1)"
        using Cons.prems(2) a Some False by simp
      from Cons.IH [OF d run] show ?thesis using a Some False nin
        by (auto split: option.splits)
    next
      case True
      let ?e' = "set_Removed ch e"
      have run: "addToChangeLogs_loop ch cm ?e' parent (addToChangeLog w channel ?e' parent) = (e1, w1)"
        using Cons.prems(2) a Some True by (simp add: set_Removed_def Let_def)
      from Cons.IH [OF d run] have
        ih: "clear_Removed ch e1 = clear_Removed ch ?e'"
          "sent_to w1 c = sent_to (addToChangeLog w channel ?e' parent) c @
             (case map_of cm c of
                None \<Rightarrow> []
              | Some None \<Rightarrow> [pending_append (clear_Removed ch ?e') parent]
              | Some (Some r) \<Rightarrow>
                  (if Seq r = Sequence ?e' then [pending_append (set_Removed ch ?e') parent] else []))"
        by simp_all
      show ?thesis using ih a Some True nin
        by (auto simp: sent_to_addToChangeLog split: option.splits)
    qed
  qed
qed

text \<open>
  Claim C5. The channel map has each channel once. Then \<^verbatim>\<open>addToChangeLogs\<close>
  returns a nil error, and what it sends to any channel \<open>c\<close> is what the
  specification says, computed from the entry as passed: nothing for a
  channel with a removal at another sequence (or not in the map), a copy with
  \<^verbatim>\<open>Removed\<close> set for a removal at the entry's sequence, a copy with
  \<^verbatim>\<open>Removed\<close> cleared for a channel without removal, and for \<^verbatim>\<open>"*"\<close>, when
  enabled, one more copy with \<^verbatim>\<open>Removed\<close> cleared. The flag set or cleared
  for one channel does not reach the copy of another.
\<close>

theorem addToChangeLogs_fanout:
  assumes "distinct (map fst channelMap)"
  shows "snd (addToChangeLogs ch cfg channelMap entry parent writers) = (None :: 'err option) \<and>
         sent_to (fst (addToChangeLogs ch cfg channelMap entry parent writers ::
                         'log logWriters \<times> 'err option)) c =
           sent_to writers c @ spec_deliveries ch cfg (map_of channelMap) entry parent c"
proof -
  obtain e1 w1 where loop: "addToChangeLogs_loop ch channelMap entry parent writers = (e1, w1)"
    by (cases "addToChangeLogs_loop ch channelMap entry parent writers")
  from addToChangeLogs_loop_sent [OF assms loop, of c] have
    e1: "clear_Removed ch e1 = clear_Removed ch entry" and
    w1: "sent_to w1 c = sent_to writers c @
           (case map_of channelMap c of
              None \<Rightarrow> []
            | Some None \<Rightarrow> [pending_append (clear_Removed ch entry) parent]
            | Some (Some r) \<Rightarrow>
                (if Seq r = Sequence entry then [pending_append (set_Removed ch entry) parent]
                 else []))"
    by simp_all
  have star: "e1\<lparr>Flags := Flags e1 AND NOT (Removed ch)\<rparr> = clear_Removed ch entry"
    using e1 by (simp add: clear_Removed_def)
  show ?thesis
    using loop w1
    by (auto simp add: addToChangeLogs_def spec_deliveries_def star sent_to_addToChangeLog)
qed

text \<open>A change at sequence 7 whose flags hold \<^verbatim>\<open>Removed\<close> and one more bit,
  with a channel without removal, one removed at 7 and one removed at 3: the
  copies for \<open>a\<close> and \<open>*\<close> have the flag cleared, the copy for \<open>b\<close> has it set,
  and \<open>c\<close> gets nothing.\<close>

theorem addToChangeLogs_fanout_witness:
  "map (sent_to (fst (addToChangeLogs demo_channels (demo_config 5)
       [(''a'', None), (''b'', Some \<lparr>Seq = 7\<rparr>), (''c'', Some \<lparr>Seq = 3\<rparr>)]
       \<lparr>Sequence = 7, DocID = ''doc'', RevID = ''2-b'', Flags = 3\<rparr> ''1-a'' Map.empty ::
       LogEntry list logWriters \<times> unit option))) [''a'', ''b'', ''c'', ''*''] =
     [[pending_append \<lparr>Sequence = 7, DocID = ''doc'', RevID = ''2-b'', Flags = 1\<rparr> ''1-a''],
      [pending_append \<lparr>Sequence = 7, DocID = ''doc'', RevID = ''2-b'', Flags = 3\<rparr> ''1-a''],
      [],
      [pending_append \<lparr>Sequence = 7, DocID = ''doc'', RevID = ''2-b'', Flags = 1\<rparr> ''1-a'']]"
proof -
  let ?cm = "[(''a'', None), (''b'', Some \<lparr>Seq = 7\<rparr>), (''c'', Some \<lparr>Seq = 3\<rparr>)]"
  let ?e = "\<lparr>Sequence = 7, DocID = ''doc'', RevID = ''2-b'', Flags = 3\<rparr>"
  have d: "distinct (map fst ?cm)" by simp
  note t = addToChangeLogs_fanout [OF d, of demo_channels "demo_config 5" ?e "''1-a''" Map.empty,
      where ?'err = unit, THEN conjunct2]
  show ?thesis
    unfolding list.map t
    by (simp add: spec_deliveries_def sent_to_def demo_channels_def demo_config_def
        set_Removed_def clear_Removed_def)
qed

subsection \<open>The read path\<close>

text \<open>
  Claim C6. \<^verbatim>\<open>FilterAfter\<close> keeps the entries after the given sequence (the
  collaborator's contract, over a view \<open>entriesOf\<close> of the log's entries).
  When the store returns the raw document and it decodes to a log,
  \<^verbatim>\<open>getChangeLog\<close> returns that log filtered, so its entries are those with
  \<open>Sequence > afterSeq\<close>, and a nil error. When the store reports that the
  document is not found, the result is a nil log and a nil error; any other
  store error is returned, with a nil log.
\<close>

theorem getChangeLog_cases:
  assumes filter_contract:
    "\<forall>l after. entriesOf (ChangeLog_FilterAfter ch l after) =
        filter (\<lambda>e. after < Sequence e) (entriesOf l)"
  shows "(GetRaw (channelLogDocID channelName) = (Some b, None) \<and>
            DecodeChangeLog ch b = Inr (Some l) \<longrightarrow>
            (\<exists>l'. getChangeLog ch IsDocNotFoundError GetRaw channelName afterSeq =
                     Inr (Some l', None :: 'err option) \<and>
                   l' = ChangeLog_FilterAfter ch l afterSeq \<and>
                   entriesOf l' = filter (\<lambda>e. afterSeq < Sequence e) (entriesOf l))) \<and>
         (GetRaw (channelLogDocID channelName) = (raw, Some err) \<and> IsDocNotFoundError err \<longrightarrow>
            getChangeLog ch IsDocNotFoundError GetRaw channelName afterSeq = Inr (None, None)) \<and>
         (GetRaw (channelLogDocID channelName) = (raw, Some err) \<and> \<not> IsDocNotFoundError err \<longrightarrow>
            getChangeLog ch IsDocNotFoundError GetRaw channelName afterSeq = Inr (None, Some err))"
  using filter_contract
  by (simp add: getChangeLog_def decodeChannelLog_def)

theorem getChangeLog_cases_witness:
  "getChangeLog demo_channels (\<lambda>e. e = ''not found'') (\<lambda>key. (Some [1, 5, 9], None))
     ''ch'' 4 =
     Inr (Some [\<lparr>Sequence = 5, DocID = [], RevID = [], Flags = 0\<rparr>,
                \<lparr>Sequence = 9, DocID = [], RevID = [], Flags = 0\<rparr>], None) \<and>
   getChangeLog demo_channels (\<lambda>e. e = ''not found'') (\<lambda>key. (None, Some ''not found''))
     ''ch'' 4 = Inr (None, None) \<and>
   getChangeLog demo_channels (\<lambda>e. e = ''not found'') (\<lambda>key. (None, Some ''timeout''))
     ''ch'' 4 = Inr (None, Some ''timeout'')"
proof -
  have c: "\<forall>l after. id (ChangeLog_FilterAfter demo_channels l after) =
        filter (\<lambda>e. after < Sequence e) (id l)"
    by (simp add: demo_channels_def)
  have d: "DecodeChangeLog demo_channels [1, 5, 9] =
      Inr (Some [\<lparr>Sequence = 1, DocID = [], RevID = [], Flags = 0\<rparr>,
                 \<lparr>Sequence = 5, DocID = [], RevID = [], Flags = 0\<rparr>,
                 \<lparr>Sequence = 9, DocID = [], RevID = [], Flags = 0\<rparr>])"
    by (simp add: demo_channels_def)
  have f: "ChangeLog_FilterAfter demo_channels
             [\<lparr>Sequence = 1, DocID = [], RevID = [], Flags = 0\<rparr>,
              \<lparr>Sequence = 5, DocID = [], RevID = [], Flags = 0\<rparr>,
              \<lparr>Sequence = 9, DocID = [], RevID = [], Flags = 0\<rparr>] 4 =
           [\<lparr>Sequence = 5, DocID = [], RevID = [], Flags = 0\<rparr>,
            \<lparr>Sequence = 9, DocID = [], RevID = [], Flags = 0\<rparr>]"
    by (simp add: demo_channels_def)
  note t = getChangeLog_cases [OF c, where channelName = "''ch''" and afterSeq = 4
      and IsDocNotFoundError = "\<lambda>e. e = ''not found''"]
  have 1: "getChangeLog demo_channels (\<lambda>e. e = ''not found'') (\<lambda>key. (Some [1, 5, 9], None))
     ''ch'' 4 =
     Inr (Some [\<lparr>Sequence = 5, DocID = [], RevID = [], Flags = 0\<rparr>,
                \<lparr>Sequence = 9, DocID = [], RevID = [], Flags = 0\<rparr>], None)"
    using t [where GetRaw = "\<lambda>key. (Some [1, 5, 9], None)" and b = "[1, 5, 9]", THEN conjunct1]
      d f by simp
  have 2: "getChangeLog demo_channels (\<lambda>e. e = ''not found'') (\<lambda>key. (None, Some ''not found''))
     ''ch'' 4 = Inr (None, None)"
    using t [where GetRaw = "\<lambda>key. (None, Some ''not found'')" and raw = None
        and err = "''not found''", THEN conjunct2, THEN conjunct1]
    by simp
  have 3: "getChangeLog demo_channels (\<lambda>e. e = ''not found'') (\<lambda>key. (None, Some ''timeout''))
     ''ch'' 4 = Inr (None, Some ''timeout'')"
    using t [where GetRaw = "\<lambda>key. (None, Some ''timeout'')" and raw = None
        and err = "''timeout''", THEN conjunct2, THEN conjunct2]
    by simp
  show ?thesis using 1 2 3 by (intro conjI)
qed

text \<open>
  Claim C7, as the code has it. \<^verbatim>\<open>decodeChannelLog\<close> returns a nil error
  whenever it returns; when the store's read succeeds, \<^verbatim>\<open>getChangeLog\<close>
  returns a nil error whatever the bytes are; and an error that
  \<^verbatim>\<open>getChangeLog\<close> returns is the store's own, not a not-found one, with a nil
  log.
\<close>

theorem getChangeLog_errors_from_store:
  "(decodeChannelLog ch raw0 = Inr (log0, err0) \<longrightarrow> err0 = (None :: 'err option)) \<and>
   (GetRaw (channelLogDocID channelName) = (raw, None) \<and>
    getChangeLog ch IsDocNotFoundError GetRaw channelName afterSeq = Inr (log, err) \<longrightarrow>
      err = (None :: 'err option)) \<and>
   (getChangeLog ch IsDocNotFoundError GetRaw channelName afterSeq = Inr (log', Some e) \<longrightarrow>
      log' = None \<and> \<not> IsDocNotFoundError e \<and>
      (\<exists>raw'. GetRaw (channelLogDocID channelName) = (raw', Some (e :: 'err))))"
  by (auto simp: getChangeLog_def decodeChannelLog_def
      split: prod.splits option.splits sum.splits if_splits)

theorem getChangeLog_errors_from_store_witness:
  "getChangeLog demo_channels (\<lambda>e. e = ''not found'') (\<lambda>key. (None, Some ''timeout''))
     ''ch'' 4 = Inr (None, Some ''timeout'') \<and>
   (\<exists>raw'. (\<lambda>key. (None, Some ''timeout'')) (channelLogDocID ''ch'') =
             (raw' :: bytes option, Some ''timeout''))"
proof -
  have run: "getChangeLog demo_channels (\<lambda>e. e = ''not found'') (\<lambda>key. (None, Some ''timeout''))
     ''ch'' 4 = Inr (None, Some ''timeout'')"
    by (simp add: getChangeLog_def)
  from getChangeLog_errors_from_store [where ch = demo_channels
      and IsDocNotFoundError = "\<lambda>e. e = ''not found''"
      and GetRaw = "\<lambda>key. (None, Some ''timeout'')" and channelName = "''ch''" and afterSeq = 4
      and log' = None and e = "''timeout''", THEN conjunct2, THEN conjunct2, rule_format, OF run]
  show ?thesis using run by blast
qed

text \<open>
  Claim C7, as stated, fails: there are no stored bytes, corrupt or not, and
  no decoder for which \<^verbatim>\<open>getChangeLog\<close> returns an error after the store
  returned the bytes.
\<close>

theorem decode_failure_not_reported:
  "\<not> (\<exists>(ch :: 'log channels_pkg) IsDocNotFoundError
        (GetRaw :: string \<Rightarrow> bytes option \<times> 'err option) channelName afterSeq raw log e.
        GetRaw (channelLogDocID channelName) = (raw, None) \<and>
        getChangeLog ch IsDocNotFoundError GetRaw channelName afterSeq = Inr (log, Some e))"
  by (auto simp: getChangeLog_def decodeChannelLog_def
      split: prod.splits option.splits sum.splits if_splits)

end
